theory Spec2Isabelle
  imports Complex_Main "HOL-Library.Sublist"
begin

section \<open>Data model of clean_image.py\<close>

text \<open>
  The script audits a donkeycar tub: a directory with catalog files (one JSON record per
  line), a manifest file holding the \<^verbatim>\<open>deleted_indexes\<close> array, and image files.
  Strings are lists of characters with codes below 256, and a file's text has one
  character per byte: this is exact for ASCII files, and reads bytes above 127 as a
  one-byte (Latin-1) encoding does. Integers are Python's unbounded integers (\<open>int\<close>).
  Steering angles and mean brightness are finite floats read from JSON or computed by
  numpy; a float is modelled by the \<open>real\<close> number it stands for. Absolute value and comparison of
  floats are exact, so they are the operations on \<open>real\<close>. The sum and the quotient of
  floats are rounded by the interpreter: the mean that the script computes is not
  computed in the model but taken from the world the script runs in (\<open>float_mean\<close>
  below). A float literal of the source is the double nearest to it.
\<close>

type_synonym path = string

text \<open>
  A catalog record as \<^verbatim>\<open>json.loads\<close> returns it, read by the script only through
  \<^verbatim>\<open>record.get('_index')\<close>, \<^verbatim>\<open>record.get('cam/image_array')\<close> and
  \<^verbatim>\<open>record.get('user/angle', None)\<close>. The catalog format gives every record an integer
  \<^verbatim>\<open>_index\<close>; the other two keys may be absent (\<open>None\<close>).
\<close>

record jrecord =
  r_index :: int
  cam_image_array :: "string option"
  user_angle :: "real option"

text \<open>
  What \<^verbatim>\<open>check_brightness\<close> can get from OpenCV for a path: \<^verbatim>\<open>cv2.imread\<close> returns
  \<^verbatim>\<open>None\<close>, or one of the calls raises, or \<^verbatim>\<open>np.mean(gray)\<close> is computed.
\<close>

datatype decoded = NoImage | DecodeRaises | GrayMean real

text \<open>
  The world the script runs in. The file system: \<^verbatim>\<open>os.path.exists\<close>, the names in a
  directory in enumeration order, and the text of a file. The library calls whose
  results the script only inspects: \<^verbatim>\<open>json.loads\<close> on a catalog line (\<open>None\<close> when it
  raises \<^verbatim>\<open>JSONDecodeError\<close>), whether PIL's \<^verbatim>\<open>Image.open\<close> and \<^verbatim>\<open>verify\<close> return
  without raising, and the OpenCV decode. Every catalog line that parses is taken to be a
  JSON object. The answers of the two image libraries are given per path: the script
  never writes an image file. The script writes one file only, the manifest, which
  changes \<open>file_bytes\<close> at the manifest's path and nothing else; failures of the file
  operations themselves (unreadable or unwritable files) are not modelled. The platform's
  line separator \<^verbatim>\<open>os.linesep\<close>: a newline alone, or a carriage return and a newline
  (\<open>linesep_crlf\<close>). The
  interpreter's arithmetic: \<open>float_mean xs\<close> is the float that \<^verbatim>\<open>sum(xs) / len(xs)\<close>
  evaluates to for a non-empty list \<open>xs\<close> of floats, with the rounding the interpreter
  applies to the additions and to the division.
\<close>

record env =
  path_exists :: "path \<Rightarrow> bool"
  listdir :: "path \<Rightarrow> string list"
  file_bytes :: "path \<Rightarrow> string"
  json_loads :: "string \<Rightarrow> jrecord option"
  pil_verify :: "path \<Rightarrow> bool"
  cv_gray_mean :: "path \<Rightarrow> decoded"
  float_mean :: "real list \<Rightarrow> real"
  linesep_crlf :: bool

text \<open>
  The third component of an entry of \<^verbatim>\<open>problem_images\<close>. The source uses four strings:
  file does not exist, image format invalid, brightness abnormal (followed by the mean
  printed with one decimal), run of consecutive zero steering angles.
\<close>

datatype reason = FileMissing | FormatInvalid | BrightnessAbnormal real | ZeroAngleSequence

type_synonym problem = "int \<times> path \<times> reason"

text \<open>The lines the script prints, in the order of the \<^verbatim>\<open>print\<close> calls of the source.\<close>

datatype msg =
    ImageVerifyError path
  | BrightnessCheckError path
  | DirNotExist path
  | NoCatalogFound path
  | NoManifestFound path
  | AlreadyDeletedCount nat
  | CannotParseRecord string
  | TotalRecords nat
  | FoundProblems nat
  | ProblemLine int path reason
  | AddedToDeleted nat
  | NoProblemsFound

text \<open>
  Exceptions that leave \<^verbatim>\<open>clean_tub_data\<close> and \<^verbatim>\<open>main\<close> uncaught. \<open>SystemExit n\<close> is
  docopt ending the process itself with status \<open>n\<close>.
\<close>

datatype py_error = ValueError | IndexError | SystemExit nat

section \<open>Paths\<close>

text \<open>\<^verbatim>\<open>os.path.join\<close> of POSIX for two components.\<close>

definition path_join :: "path \<Rightarrow> string \<Rightarrow> path" where
  "path_join a b =
     (if prefix ''/'' b then b
      else if a = [] \<or> suffix ''/'' a then a @ b
      else a @ ''/'' @ b)"

definition get_image_path :: "env \<Rightarrow> path \<Rightarrow> string \<Rightarrow> path option" where
  "get_image_path e tub_path img_filename =
     (let img_path = path_join tub_path img_filename in
      if path_exists e img_path then Some img_path
      else
        let img_path2 = path_join (path_join tub_path ''images'') img_filename in
        if path_exists e img_path2 then Some img_path2 else None)"

section \<open>Frame validation\<close>

definition is_valid_image :: "env \<Rightarrow> path option \<Rightarrow> bool \<times> msg list" where
  "is_valid_image e img_path =
     (case img_path of
        None \<Rightarrow> (False, [])
      | Some p \<Rightarrow> if pil_verify e p then (True, []) else (False, [ImageVerifyError p]))"

definition check_brightness ::
  "env \<Rightarrow> path option \<Rightarrow> real \<Rightarrow> real \<Rightarrow> (bool \<times> real) \<times> msg list" where
  "check_brightness e img_path min_brightness max_brightness =
     (case img_path of
        None \<Rightarrow> ((False, 0), [])
      | Some p \<Rightarrow>
          (case cv_gray_mean e p of
             NoImage \<Rightarrow> ((False, 0), [])
           | GrayMean brightness \<Rightarrow>
               if brightness < min_brightness \<or> brightness > max_brightness
               then ((False, brightness), [])
               else ((True, brightness), [])
           | DecodeRaises \<Rightarrow> ((False, 0), [BrightnessCheckError p])))"

text \<open>
  The checks of the first loop of \<^verbatim>\<open>clean_tub_data\<close> that follow the test of the
  deletion index: the entry appended to \<^verbatim>\<open>problem_images\<close>, if any, and the lines
  printed by the two checks.
\<close>

definition inspect_image ::
  "env \<Rightarrow> path \<Rightarrow> real \<Rightarrow> real \<Rightarrow> jrecord \<Rightarrow> problem option \<times> msg list" where
  "inspect_image e tub_path max_brightness min_brightness record =
     (let index = r_index record in
      case cam_image_array record of
        None \<Rightarrow> (None, [])
      | Some img_filename \<Rightarrow>
          if img_filename = [] then (None, [])
          else
            (case get_image_path e tub_path img_filename of
               None \<Rightarrow> (Some (index, path_join tub_path img_filename, FileMissing), [])
             | Some img_path \<Rightarrow>
                 (case is_valid_image e (Some img_path) of
                    (False, out1) \<Rightarrow> (Some (index, img_path, FormatInvalid), out1)
                  | (True, out1) \<Rightarrow>
                      (case check_brightness e (Some img_path) min_brightness max_brightness of
                         ((False, brightness), out2) \<Rightarrow>
                           (Some (index, img_path, BrightnessAbnormal brightness), out1 @ out2)
                       | ((True, brightness), out2) \<Rightarrow> (None, out1 @ out2)))))"

text \<open>The body of the first loop: a record whose index is already deleted is skipped.\<close>

definition check_record ::
  "env \<Rightarrow> path \<Rightarrow> int set \<Rightarrow> real \<Rightarrow> real \<Rightarrow> jrecord \<Rightarrow> problem option \<times> msg list" where
  "check_record e tub_path deleted_indexes max_brightness min_brightness record =
     (if r_index record \<in> deleted_indexes then (None, [])
      else inspect_image e tub_path max_brightness min_brightness record)"

text \<open>The first loop, with \<^verbatim>\<open>problem_images\<close> and the printed lines as its state.\<close>

fun frame_pass ::
  "env \<Rightarrow> path \<Rightarrow> int set \<Rightarrow> real \<Rightarrow> real \<Rightarrow> jrecord list \<Rightarrow>
   problem list \<times> msg list \<Rightarrow> problem list \<times> msg list" where
  "frame_pass e tub_path deleted_indexes max_brightness min_brightness [] st = st"
| "frame_pass e tub_path deleted_indexes max_brightness min_brightness (record # rest)
     (problem_images, out) =
     (case check_record e tub_path deleted_indexes max_brightness min_brightness record of
        (None, out1) \<Rightarrow>
          frame_pass e tub_path deleted_indexes max_brightness min_brightness rest
            (problem_images, out @ out1)
      | (Some p, out1) \<Rightarrow>
          frame_pass e tub_path deleted_indexes max_brightness min_brightness rest
            (problem_images @ [p], out @ out1))"

section \<open>Runs of zero steering angle\<close>

text \<open>
  The float literals \<^verbatim>\<open>0.05\<close> and \<^verbatim>\<open>0.1\<close> of the source: the doubles nearest to 0.05
  and 0.1, which are \<open>3602879701896397 / 2 ^ 56\<close> and \<open>3602879701896397 / 2 ^ 55\<close>.
\<close>

definition float_0_05 :: real where
  "float_0_05 = 3602879701896397 / 72057594037927936"

definition float_0_1 :: real where
  "float_0_1 = 3602879701896397 / 36028797018963968"

definition near_zero :: "jrecord \<Rightarrow> bool" where
  "near_zero record =
     (case user_angle record of None \<Rightarrow> False | Some angle \<Rightarrow> \<bar>angle\<bar> < float_0_05)"

text \<open>
  The loop of \<^verbatim>\<open>get_zero_angle_sequences\<close> over \<^verbatim>\<open>enumerate(records)\<close>: the position
  of the next record, the records left, \<^verbatim>\<open>zero_sequences\<close> and \<^verbatim>\<open>current_seq\<close>.
\<close>

fun zero_scan :: "nat \<Rightarrow> jrecord list \<Rightarrow> nat list list \<Rightarrow> nat list \<Rightarrow> nat list list" where
  "zero_scan index [] zero_sequences current_seq =
     (if length current_seq > 0 then zero_sequences @ [current_seq] else zero_sequences)"
| "zero_scan index (record # rest) zero_sequences current_seq =
     (if near_zero record then zero_scan (index + 1) rest zero_sequences (current_seq @ [index])
      else if length current_seq > 0
        then zero_scan (index + 1) rest (zero_sequences @ [current_seq]) []
        else zero_scan (index + 1) rest zero_sequences current_seq)"

definition get_zero_angle_sequences :: "jrecord list \<Rightarrow> nat list list" where
  "get_zero_angle_sequences records = zero_scan 0 records [] []"

text \<open>
  The absolute angles of the records at the given positions that have an angle. For the
  records before a run the source tests each position against the length of the list.
\<close>

definition abs_angles :: "jrecord list \<Rightarrow> nat list \<Rightarrow> real list" where
  "abs_angles all_records positions =
     concat (map (\<lambda>i. if i < length all_records
                       then (case user_angle (all_records ! i) of
                               None \<Rightarrow> [] | Some angle \<Rightarrow> [\<bar>angle\<bar>])
                       else []) positions)"

text \<open>
  \<^verbatim>\<open>range(max(0, sequence[0]-5), sequence[0])\<close>: subtraction on \<open>nat\<close> stops at 0, which
  is the \<^verbatim>\<open>max\<close> of the source.
\<close>

definition pre_seq_angles :: "jrecord list \<Rightarrow> nat \<Rightarrow> real list" where
  "pre_seq_angles all_records first = abs_angles all_records [first - 5 ..< first]"

definition post_seq_angles :: "jrecord list \<Rightarrow> nat \<Rightarrow> real list" where
  "post_seq_angles all_records lst =
     abs_angles all_records [lst + 1 ..< min (length all_records) (lst + 6)]"

text \<open>
  \<^verbatim>\<open>sum(xs) / len(xs) if xs else 0\<close>: the mean of a non-empty list is the float the
  interpreter computes.
\<close>

definition avg :: "env \<Rightarrow> real list \<Rightarrow> real" where
  "avg e xs = (if xs = [] then 0 else float_mean e xs)"

text \<open>
  The innermost loop, which marks the positions of a run. \<^verbatim>\<open>all_records[idx]\<close> raises
  \<^verbatim>\<open>IndexError\<close> out of range.
\<close>

fun flag_sequence ::
  "env \<Rightarrow> path \<Rightarrow> jrecord list \<Rightarrow> int set \<Rightarrow> nat list \<Rightarrow> problem list \<Rightarrow>
   py_error + problem list" where
  "flag_sequence e tub_path all_records deleted_indexes [] problem_images = Inr problem_images"
| "flag_sequence e tub_path all_records deleted_indexes (idx # rest) problem_images =
     (if idx < length all_records then
        (let record = all_records ! idx; rec_idx = r_index record in
         flag_sequence e tub_path all_records deleted_indexes rest
           (if rec_idx \<notin> deleted_indexes \<and> rec_idx \<notin> set (map fst problem_images) then
              (case cam_image_array record of
                 None \<Rightarrow> problem_images
               | Some img_filename \<Rightarrow>
                   if img_filename = [] then problem_images
                   else
                     (case get_image_path e tub_path img_filename of
                        None \<Rightarrow> problem_images
                      | Some img_path \<Rightarrow>
                          problem_images @ [(rec_idx, img_path, ZeroAngleSequence)]))
            else problem_images))
      else Inl IndexError)"

text \<open>
  The body of the loop over \<^verbatim>\<open>zero_sequences\<close>. \<^verbatim>\<open>sequence[0]\<close> and \<^verbatim>\<open>sequence[-1]\<close>
  raise \<^verbatim>\<open>IndexError\<close> on an empty list.
\<close>

definition process_sequence ::
  "env \<Rightarrow> path \<Rightarrow> jrecord list \<Rightarrow> int set \<Rightarrow> int \<Rightarrow> nat list \<Rightarrow> problem list \<Rightarrow>
   py_error + problem list" where
  "process_sequence e tub_path all_records deleted_indexes max_zero_angle_count sequence
     problem_images =
     (if int (length sequence) > max_zero_angle_count then
        (if sequence = [] then Inl IndexError
         else
           let pre_avg = avg e (pre_seq_angles all_records (hd sequence));
               post_avg = avg e (post_seq_angles all_records (last sequence))
           in if pre_avg > float_0_1 \<or> post_avg > float_0_1 then Inr problem_images
              else flag_sequence e tub_path all_records deleted_indexes sequence problem_images)
      else Inr problem_images)"

fun zero_pass ::
  "env \<Rightarrow> path \<Rightarrow> jrecord list \<Rightarrow> int set \<Rightarrow> int \<Rightarrow> nat list list \<Rightarrow> problem list \<Rightarrow>
   py_error + problem list" where
  "zero_pass e tub_path all_records deleted_indexes max_zero_angle_count [] problem_images =
     Inr problem_images"
| "zero_pass e tub_path all_records deleted_indexes max_zero_angle_count (sequence # rest)
     problem_images =
     (case process_sequence e tub_path all_records deleted_indexes max_zero_angle_count
             sequence problem_images of
        Inl err \<Rightarrow> Inl err
      | Inr problem_images' \<Rightarrow>
          zero_pass e tub_path all_records deleted_indexes max_zero_angle_count rest
            problem_images')"

section \<open>Strings\<close>

definition nl :: char where
  "nl = CHR 0x0A"

definition cr :: char where
  "cr = CHR 0x0D"

text \<open>
  The text that \<^verbatim>\<open>open(path, 'r')\<close> hands to the script for the bytes of a file: in text
  mode a carriage return followed by a newline, and a carriage return alone, are read as
  one newline.
\<close>

fun universal_newlines :: "string \<Rightarrow> string" where
  "universal_newlines [] = []"
| "universal_newlines [c] = (if c = cr then [nl] else [c])"
| "universal_newlines (c # d # ds) =
     (if c = cr then
        (if d = nl then nl # universal_newlines ds else nl # universal_newlines (d # ds))
      else c # universal_newlines (d # ds))"

definition read_text :: "env \<Rightarrow> path \<Rightarrow> string" where
  "read_text e p = universal_newlines (file_bytes e p)"

text \<open>
  The bytes that \<^verbatim>\<open>open(path, 'w')\<close> and \<^verbatim>\<open>f.write(text)\<close> leave in the file: in text
  mode every newline of the text is written as the platform's line separator.
\<close>

definition write_newlines :: "bool \<Rightarrow> string \<Rightarrow> string" where
  "write_newlines crlf s = (if crlf then concat (map (\<lambda>c. if c = nl then [cr, nl] else [c]) s) else s)"

definition write_text :: "env \<Rightarrow> path \<Rightarrow> string \<Rightarrow> env" where
  "write_text e p s = e\<lparr>file_bytes := (file_bytes e)(p := write_newlines (linesep_crlf e) s)\<rparr>"

text \<open>\<^verbatim>\<open>str.split(sep)\<close> for a separator of one character.\<close>

fun split_on :: "char \<Rightarrow> string \<Rightarrow> string list" where
  "split_on sep [] = [[]]"
| "split_on sep (c # cs) =
     (if c = sep then [] # split_on sep cs
      else (case split_on sep cs of
              [] \<Rightarrow> [[c]]
            | piece # pieces \<Rightarrow> (c # piece) # pieces))"

text \<open>
  The characters with codes below 256 that \<^verbatim>\<open>str.strip()\<close> and \<^verbatim>\<open>int()\<close> treat as
  whitespace.
\<close>

definition is_space :: "char \<Rightarrow> bool" where
  "is_space c = (c \<in> {CHR 0x09, CHR 0x0A, CHR 0x0B, CHR 0x0C, CHR 0x0D,
                       CHR 0x1C, CHR 0x1D, CHR 0x1E, CHR 0x1F, CHR 0x20, CHR 0x85, CHR 0xA0})"

definition strip :: "string \<Rightarrow> string" where
  "strip s = rev (dropWhile is_space (rev (dropWhile is_space s)))"

definition is_digit :: "char \<Rightarrow> bool" where
  "is_digit c = (c \<in> set ''0123456789'')"

text \<open>The value of a digit: its position in the string of the ten digits.\<close>

definition digit_val :: "char \<Rightarrow> nat" where
  "digit_val c = length (takeWhile (\<lambda>d. d \<noteq> c) ''0123456789'')"

definition digit_char :: "nat \<Rightarrow> char" where
  "digit_char n = ''0123456789'' ! n"

text \<open>
  \<^verbatim>\<open>int(s)\<close> on a string: surrounding whitespace is dropped, a sign may come first, then
  decimal digits, where single underscores may separate digits. Anything else raises
  \<^verbatim>\<open>ValueError\<close> (\<open>None\<close>).
\<close>

fun digits_value :: "nat \<Rightarrow> string \<Rightarrow> nat option" where
  "digits_value acc [] = Some acc"
| "digits_value acc (c # cs) =
     (if is_digit c then digits_value (10 * acc + digit_val c) cs
      else if c = CHR ''_'' then
        (case cs of
           [] \<Rightarrow> None
         | d # ds \<Rightarrow> if is_digit d then digits_value acc cs else None)
      else None)"

definition py_nat :: "string \<Rightarrow> nat option" where
  "py_nat s =
     (case s of [] \<Rightarrow> None | c # cs \<Rightarrow> if is_digit c then digits_value 0 s else None)"

definition py_int :: "string \<Rightarrow> int option" where
  "py_int s =
     (let t = strip s in
      case t of
        [] \<Rightarrow> None
      | c # cs \<Rightarrow>
          if c = CHR ''-'' then map_option (\<lambda>n. - int n) (py_nat cs)
          else if c = CHR ''+'' then map_option int (py_nat cs)
          else map_option int (py_nat t))"

text \<open>\<^verbatim>\<open>str(n)\<close> and \<^verbatim>\<open>json.dumps\<close> on a list of integers.\<close>

fun nat_str :: "nat \<Rightarrow> string" where
  "nat_str n = (if n < 10 then [digit_char n] else nat_str (n div 10) @ [digit_char (n mod 10)])"

declare nat_str.simps [simp del]

definition int_str :: "int \<Rightarrow> string" where
  "int_str i = (if i < 0 then CHR ''-'' # nat_str (nat (- i)) else nat_str (nat i))"

fun join_comma :: "string list \<Rightarrow> string" where
  "join_comma [] = []"
| "join_comma [x] = x"
| "join_comma (x # y # ys) = x @ '', '' @ join_comma (y # ys)"

definition json_dumps :: "int list \<Rightarrow> string" where
  "json_dumps xs = ''['' @ join_comma (map int_str xs) @ '']''"

section \<open>The manifest\<close>

text \<open>The text \<^verbatim>\<open>"deleted_indexes":\<close> that the script looks for in each line.\<close>

definition KEY :: string where
  "KEY = CHR 0x22 # ''deleted_indexes'' @ [CHR 0x22] @ '':''"

text \<open>
  The regular expressions of the script are \<^verbatim>\<open>"deleted_indexes": \[(.*?)\]\<close> (in
  \<^verbatim>\<open>re.search\<close>) and the same without the group (in \<^verbatim>\<open>re.sub\<close>): the literal text
  \<open>PAT\<close>, then as few characters other than a newline as possible, then a closing
  bracket. \<open>lazy_body\<close> is the part after the literal text: the characters up to the first
  closing bracket and what follows the bracket, if no newline comes first.
\<close>

definition PAT :: string where
  "PAT = KEY @ '' [''"

fun lazy_body :: "string \<Rightarrow> (string \<times> string) option" where
  "lazy_body [] = None"
| "lazy_body (c # cs) =
     (if c = CHR '']'' then Some ([], cs)
      else if c = nl then None
      else map_option (\<lambda>(body, rest). (c # body, rest)) (lazy_body cs))"

text \<open>A match that starts at the first character: the group and the text after the match.\<close>

definition match_here :: "string \<Rightarrow> (string \<times> string) option" where
  "match_here s = (if prefix PAT s then lazy_body (drop (length PAT) s) else None)"

text \<open>\<^verbatim>\<open>re.search\<close>: the group of the leftmost match.\<close>

fun re_search :: "string \<Rightarrow> string option" where
  "re_search [] = map_option fst (match_here [])"
| "re_search (c # cs) =
     (case match_here (c # cs) of
        Some (body, rest) \<Rightarrow> Some body
      | None \<Rightarrow> re_search cs)"

lemma lazy_body_length: "lazy_body s = Some (body, rest) \<Longrightarrow> length rest < length s"
  by (induction s arbitrary: body) (auto split: if_splits)

lemma match_here_length: "match_here s = Some (body, rest) \<Longrightarrow> length rest < length s"
  by (auto simp: match_here_def split: if_splits dest!: lazy_body_length)

text \<open>
  \<^verbatim>\<open>re.sub\<close>: every match, found from left to right, is replaced; the search goes on
  after the end of each match.
\<close>

function re_sub :: "string \<Rightarrow> string \<Rightarrow> string" where
  "re_sub replacement s =
     (case match_here s of
        Some (body, rest) \<Rightarrow> replacement @ re_sub replacement rest
      | None \<Rightarrow> (case s of [] \<Rightarrow> [] | c # cs \<Rightarrow> c # re_sub replacement cs))"
  by pat_completeness auto
termination
  by (relation "measure (\<lambda>(replacement, s). length s)") (auto dest: match_here_length)

declare re_sub.simps [simp del]

text \<open>\<^verbatim>\<open>set(int(idx.strip()) for idx in indexes.split(','))\<close>.\<close>

fun parse_indexes :: "string list \<Rightarrow> py_error + int set" where
  "parse_indexes [] = Inr {}"
| "parse_indexes (idx # rest) =
     (case py_int (strip idx) of
        None \<Rightarrow> Inl ValueError
      | Some n \<Rightarrow>
          (case parse_indexes rest of
             Inl err \<Rightarrow> Inl err
           | Inr indexes \<Rightarrow> Inr (insert n indexes)))"

text \<open>What the script does with the first line that contains the key.\<close>

definition parse_field :: "string \<Rightarrow> py_error + int set" where
  "parse_field line =
     (case re_search line of
        None \<Rightarrow> Inr {}
      | Some m \<Rightarrow>
          (let indexes = strip m in
           if indexes = [] then Inr {}
           else parse_indexes (split_on CHR '','' indexes)))"

text \<open>The loop over the lines of the manifest, left at the first line with the key.\<close>

fun scan_manifest_lines :: "string list \<Rightarrow> py_error + int set" where
  "scan_manifest_lines [] = Inr {}"
| "scan_manifest_lines (line # rest) =
     (if sublist KEY line then parse_field line else scan_manifest_lines rest)"

definition load_deleted_indexes :: "string \<Rightarrow> py_error + int set" where
  "load_deleted_indexes manifest_content = scan_manifest_lines (split_on nl manifest_content)"

text \<open>
  The new text of the manifest: \<^verbatim>\<open>deleted_indexes.update(new_deleted)\<close>, then every
  match of the pattern replaced by the key and the sorted list.
\<close>

definition replacement_text :: "int set \<Rightarrow> string" where
  "replacement_text deleted_indexes =
     KEY @ '' '' @ json_dumps (sorted_list_of_set deleted_indexes)"

definition commit_content :: "string \<Rightarrow> int set \<Rightarrow> int list \<Rightarrow> string" where
  "commit_content manifest_content deleted_indexes new_deleted =
     re_sub (replacement_text (deleted_indexes \<union> set new_deleted)) manifest_content"

section \<open>The catalogs\<close>

text \<open>
  \<^verbatim>\<open>glob.glob(os.path.join(tub_path, "catalog_*.catalog"))\<close>: the names of the directory
  that match, in enumeration order, each joined to the directory. (A store path that itself
  contains wildcard characters is not modelled.)
\<close>

definition is_catalog_name :: "string \<Rightarrow> bool" where
  "is_catalog_name name =
     (prefix ''catalog_'' name \<and> suffix ''.catalog'' name \<and> 16 \<le> length name)"

definition glob_catalogs :: "env \<Rightarrow> path \<Rightarrow> path list" where
  "glob_catalogs e tub_path = map (path_join tub_path) (filter is_catalog_name (listdir e tub_path))"

text \<open>The lines of a text file as a loop over the file yields them, each with its newline.\<close>

fun iter_lines :: "string \<Rightarrow> string list" where
  "iter_lines [] = []"
| "iter_lines (c # cs) =
     (if c = nl then [c] # iter_lines cs
      else (case iter_lines cs of
              [] \<Rightarrow> [[c]]
            | line # lines \<Rightarrow> (c # line) # lines))"

fun read_lines :: "env \<Rightarrow> string list \<Rightarrow> jrecord list \<times> msg list \<Rightarrow> jrecord list \<times> msg list" where
  "read_lines e [] st = st"
| "read_lines e (line # rest) (all_records, out) =
     (case json_loads e line of
        Some record \<Rightarrow> read_lines e rest (all_records @ [record], out)
      | None \<Rightarrow> read_lines e rest (all_records, out @ [CannotParseRecord line]))"

fun read_catalogs :: "env \<Rightarrow> path list \<Rightarrow> jrecord list \<times> msg list \<Rightarrow> jrecord list \<times> msg list" where
  "read_catalogs e [] st = st"
| "read_catalogs e (catalog_file # rest) st =
     read_catalogs e rest (read_lines e (iter_lines (read_text e catalog_file)) st)"

section \<open>The audit\<close>

text \<open>
  \<^verbatim>\<open>clean_tub_data\<close> returns nothing; the model returns what it printed and the world it
  leaves, or the exception that ended it. The manifest is read and written in text
  mode.
\<close>

definition report_lines :: "problem list \<Rightarrow> msg list" where
  "report_lines problem_images = map (\<lambda>(index, path, reason). ProblemLine index path reason) problem_images"

definition clean_tub_data ::
  "env \<Rightarrow> path \<Rightarrow> bool \<Rightarrow> real \<Rightarrow> real \<Rightarrow> int \<Rightarrow> py_error + (msg list \<times> env)" where
  "clean_tub_data e tub_path remove max_brightness min_brightness max_zero_angle_count =
     (if \<not> path_exists e tub_path then Inr ([DirNotExist tub_path], e)
      else
        let catalog_files = glob_catalogs e tub_path in
        if catalog_files = [] then Inr ([NoCatalogFound tub_path], e)
        else
          let manifest_path = path_join tub_path ''manifest.json'' in
          if \<not> path_exists e manifest_path then Inr ([NoManifestFound tub_path], e)
          else
            let manifest_content = read_text e manifest_path in
            (case load_deleted_indexes manifest_content of
               Inl err \<Rightarrow> Inl err
             | Inr deleted_indexes \<Rightarrow>
                 let out1 = [AlreadyDeletedCount (card deleted_indexes)];
                     (all_records, out2) = read_catalogs e catalog_files ([], out1);
                     out3 = out2 @ [TotalRecords (length all_records)];
                     (problem_images1, out4) =
                        frame_pass e tub_path deleted_indexes max_brightness min_brightness
                          all_records ([], out3)
                 in
                 (case zero_pass e tub_path all_records deleted_indexes max_zero_angle_count
                         (get_zero_angle_sequences all_records) problem_images1 of
                    Inl err \<Rightarrow> Inl err
                  | Inr problem_images \<Rightarrow>
                      if problem_images \<noteq> [] then
                        (let out5 = out4 @ [FoundProblems (length problem_images)]
                                      @ report_lines problem_images
                         in
                         if remove then
                           (let new_deleted = map fst problem_images;
                                new_content =
                                  commit_content manifest_content deleted_indexes new_deleted
                            in Inr (out5 @ [AddedToDeleted (length new_deleted)],
                                    write_text e manifest_path new_content))
                         else Inr (out5, e))
                      else Inr (out4 @ [NoProblemsFound], e))))"

text \<open>
  The arguments as docopt hands them to \<^verbatim>\<open>main\<close>: the three numbers are strings, or
  \<open>None\<close> when the option is not given. \<^verbatim>\<open>int(x or d)\<close> takes the default for \<open>None\<close>
  and for the empty string.
\<close>

record args =
  arg_tub :: string
  arg_remove :: bool
  arg_max_brightness :: "string option"
  arg_min_brightness :: "string option"
  arg_max_zero_angle_count :: "string option"

definition int_or :: "string option \<Rightarrow> int \<Rightarrow> py_error + int" where
  "int_or x d =
     (case x of
        None \<Rightarrow> Inr d
      | Some s \<Rightarrow> if s = [] then Inr d
                  else (case py_int s of None \<Rightarrow> Inl ValueError | Some n \<Rightarrow> Inr n))"

text \<open>
  What \<^verbatim>\<open>docopt(__doc__)\<close> does with the command line: it hands the arguments to
  \<^verbatim>\<open>main\<close>, or it prints a message and ends the process with a status of its own.
\<close>

datatype docopt_result = Parsed args | Exits nat

definition main :: "env \<Rightarrow> docopt_result \<Rightarrow> py_error + (msg list \<times> env)" where
  "main e cmd =
     (case cmd of
        Exits n \<Rightarrow> Inl (SystemExit n)
      | Parsed a \<Rightarrow>
          (case int_or (arg_max_brightness a) 250 of
             Inl err \<Rightarrow> Inl err
           | Inr max_brightness \<Rightarrow>
               (case int_or (arg_min_brightness a) 20 of
                  Inl err \<Rightarrow> Inl err
                | Inr min_brightness \<Rightarrow>
                    (case int_or (arg_max_zero_angle_count a) 25 of
                       Inl err \<Rightarrow> Inl err
                     | Inr max_zero_angle_count \<Rightarrow>
                         clean_tub_data e (arg_tub a) (arg_remove a) (of_int max_brightness)
                           (of_int min_brightness) max_zero_angle_count))))"

text \<open>
  The exit status of the process: \<^verbatim>\<open>main\<close> returns \<^verbatim>\<open>None\<close> and the script ends, which
  is status 0; \<^verbatim>\<open>SystemExit\<close> ends it with the status it carries; any other uncaught
  exception ends the interpreter with status 1. The model raises what the source raises
  on the data the model has. The source raises other exceptions on data outside it: a
  catalog line that is JSON but not an object, a record field of another type, a file
  that cannot be read or written. Those runs do not return either, and the model says
  nothing about them.
\<close>

definition exit_status :: "env \<Rightarrow> docopt_result \<Rightarrow> nat" where
  "exit_status e cmd =
     (case main e cmd of Inl (SystemExit n) \<Rightarrow> n | Inl err \<Rightarrow> 1 | Inr r \<Rightarrow> 0)"

section \<open>Derived notions\<close>

text \<open>
  Names for parts of the audit that the statements below speak about. They add nothing to
  the model: each is a piece of \<open>clean_tub_data\<close> or a property of its data.
\<close>

text \<open>The path of the manifest, as \<open>clean_tub_data\<close> builds it.\<close>

definition manifest_path :: "path \<Rightarrow> path" where
  "manifest_path tub_path = path_join tub_path ''manifest.json''"

text \<open>A printed line that reports a problem entry.\<close>

definition is_problem_line :: "msg \<Rightarrow> bool" where
  "is_problem_line m = (case m of ProblemLine i p r \<Rightarrow> True | _ \<Rightarrow> False)"

text \<open>The records of the lines of one catalog that parse, in line order.\<close>

definition catalog_records :: "env \<Rightarrow> path \<Rightarrow> jrecord list" where
  "catalog_records e catalog_file =
     List.map_filter (json_loads e) (iter_lines (read_text e catalog_file))"

text \<open>The record list of a store: the catalogs in enumeration order.\<close>

definition all_records_of :: "env \<Rightarrow> path \<Rightarrow> jrecord list" where
  "all_records_of e tub_path = concat (map (catalog_records e) (glob_catalogs e tub_path))"

text \<open>The entries the first loop makes, in the order of the records.\<close>

definition frame_problems ::
  "env \<Rightarrow> path \<Rightarrow> int set \<Rightarrow> real \<Rightarrow> real \<Rightarrow> jrecord list \<Rightarrow> problem list" where
  "frame_problems e tub_path deleted_indexes max_brightness min_brightness records =
     List.map_filter
       (\<lambda>record. fst (check_record e tub_path deleted_indexes max_brightness min_brightness record))
       records"

text \<open>The problem list after both passes, for a given deletion index.\<close>

definition found_problems ::
  "env \<Rightarrow> path \<Rightarrow> int set \<Rightarrow> real \<Rightarrow> real \<Rightarrow> int \<Rightarrow> py_error + problem list" where
  "found_problems e tub_path deleted_indexes max_brightness min_brightness max_zero_angle_count =
     (let all_records = all_records_of e tub_path in
      zero_pass e tub_path all_records deleted_indexes max_zero_angle_count
        (get_zero_angle_sequences all_records)
        (frame_problems e tub_path deleted_indexes max_brightness min_brightness all_records))"

text \<open>Printed lines none of which reports a problem.\<close>

definition quiet :: "msg list \<Rightarrow> bool" where
  "quiet out = (\<forall>m \<in> set out. \<not> is_problem_line m)"

text \<open>The store has a root, a catalog and a manifest.\<close>

definition store_ok :: "env \<Rightarrow> path \<Rightarrow> bool" where
  "store_ok e tub_path \<longleftrightarrow>
     path_exists e tub_path \<and> glob_catalogs e tub_path \<noteq> [] \<and> path_exists e (manifest_path tub_path)"

text \<open>The world after the manifest has been rewritten for the given problems.\<close>

definition committed :: "env \<Rightarrow> path \<Rightarrow> int set \<Rightarrow> problem list \<Rightarrow> env" where
  "committed e tub_path deleted_indexes problem_images =
     write_text e (manifest_path tub_path)
       (commit_content (read_text e (manifest_path tub_path)) deleted_indexes
          (map fst problem_images))"

text \<open>
  The path the second loop finds for a record: the record has a non-empty image name
  and \<open>get_image_path\<close> finds the file.
\<close>

definition resolved_image :: "env \<Rightarrow> path \<Rightarrow> jrecord \<Rightarrow> path option" where
  "resolved_image e tub_path record =
     (case cam_image_array record of
        None \<Rightarrow> None
      | Some img_filename \<Rightarrow> if img_filename = [] then None else get_image_path e tub_path img_filename)"

text \<open>The problem list after the innermost loop has visited one position.\<close>

definition flag_one ::
  "env \<Rightarrow> path \<Rightarrow> jrecord list \<Rightarrow> int set \<Rightarrow> nat \<Rightarrow> problem list \<Rightarrow> problem list" where
  "flag_one e tub_path all_records deleted_indexes idx problem_images =
     (let rec_idx = r_index (all_records ! idx) in
      if rec_idx \<notin> deleted_indexes \<and> rec_idx \<notin> fst ` set problem_images then
        (case resolved_image e tub_path (all_records ! idx) of
           None \<Rightarrow> problem_images
         | Some img_path \<Rightarrow> problem_images @ [(rec_idx, img_path, ZeroAngleSequence)])
      else problem_images)"

text \<open>A run is marked: it is longer than the threshold and neither side is a turn.\<close>

definition run_flagged :: "env \<Rightarrow> jrecord list \<Rightarrow> int \<Rightarrow> nat list \<Rightarrow> bool" where
  "run_flagged e all_records max_zero_angle_count sequence \<longleftrightarrow>
     int (length sequence) > max_zero_angle_count \<and>
     avg e (pre_seq_angles all_records (hd sequence)) \<le> float_0_1 \<and>
     avg e (post_seq_angles all_records (last sequence)) \<le> float_0_1"

text \<open>An entry that the marking loop may add for a position of the run.\<close>

definition zero_entry ::
  "env \<Rightarrow> path \<Rightarrow> jrecord list \<Rightarrow> int set \<Rightarrow> nat list \<Rightarrow> problem \<Rightarrow> bool" where
  "zero_entry e tub_path all_records deleted_indexes sequence x \<longleftrightarrow>
     snd (snd x) = ZeroAngleSequence \<and> fst x \<notin> deleted_indexes \<and>
     (\<exists>pos \<in> set sequence. fst x = r_index (all_records ! pos) \<and>
        resolved_image e tub_path (all_records ! pos) = Some (fst (snd x)))"

text \<open>
  Every position of a run whose record is not deleted and has a resolved image has its
  index in the problem list.
\<close>

definition covered ::
  "env \<Rightarrow> path \<Rightarrow> jrecord list \<Rightarrow> int set \<Rightarrow> nat list \<Rightarrow> problem list \<Rightarrow> bool" where
  "covered e tub_path all_records deleted_indexes sequence problem_images \<longleftrightarrow>
     (\<forall>pos \<in> set sequence.
        r_index (all_records ! pos) \<notin> deleted_indexes \<and>
        resolved_image e tub_path (all_records ! pos) \<noteq> None \<longrightarrow>
        r_index (all_records ! pos) \<in> fst ` set problem_images)"

text \<open>A run is not empty and its positions are positions of the record list.\<close>

definition in_range :: "jrecord list \<Rightarrow> nat list \<Rightarrow> bool" where
  "in_range all_records sequence \<longleftrightarrow> sequence \<noteq> [] \<and> (\<forall>pos \<in> set sequence. pos < length all_records)"

text \<open>What \<open>parse_field\<close> does with the group of a match.\<close>

definition parse_body :: "string \<Rightarrow> py_error + int set" where
  "parse_body m =
     (let indexes = strip m in
      if indexes = [] then Inr {} else parse_indexes (split_on CHR '','' indexes))"

text \<open>
  The line that the loop over the manifest stops at, found in the text itself: the rest
  of the line from the first place where the key starts.
\<close>

fun field_line :: "string \<Rightarrow> string option" where
  "field_line [] = None"
| "field_line (c # cs) =
     (if prefix KEY (c # cs) then Some (takeWhile (\<lambda>x. x \<noteq> nl) (c # cs)) else field_line cs)"

text \<open>The number of places in a text where the key starts.\<close>

fun count_key :: "string \<Rightarrow> nat" where
  "count_key [] = 0"
| "count_key (c # cs) = (if prefix KEY (c # cs) then 1 else 0) + count_key cs"

text \<open>The text between the brackets of \<open>json_dumps\<close>.\<close>

definition dumps_body :: "int list \<Rightarrow> string" where
  "dumps_body xs = join_comma (map int_str xs)"

text \<open>The world after a run of the audit; a run that ends in an exception has written nothing.\<close>

definition after_run :: "env \<Rightarrow> path \<Rightarrow> bool \<Rightarrow> real \<Rightarrow> real \<Rightarrow> int \<Rightarrow> env" where
  "after_run e tub_path remove max_brightness min_brightness max_zero_angle_count =
     (case clean_tub_data e tub_path remove max_brightness min_brightness max_zero_angle_count of
        Inl err \<Rightarrow> e
      | Inr (out, e') \<Rightarrow> e')"

text \<open>Bytes that are ASCII characters, none of them a carriage return.\<close>

definition plain_ascii :: "string \<Rightarrow> bool" where
  "plain_ascii s \<longleftrightarrow> (\<forall>c \<in> set s. (of_char c :: nat) < 128 \<and> c \<noteq> cr)"

text \<open>The manifest has a line with the key on which the pattern matches.\<close>

definition has_field :: "string \<Rightarrow> bool" where
  "has_field s = (case field_line s of None \<Rightarrow> False | Some l \<Rightarrow> re_search l \<noteq> None)"

section \<open>Example stores\<close>

text \<open>
  The mean in the example stores. The only list whose mean is taken in the examples is
  the single angle 0.5, whose sum from 0 and whose quotient by 1 are exact in binary
  floating point.
\<close>

definition exact_mean :: "real list \<Rightarrow> real" where
  "exact_mean xs = sum_list xs / real (length xs)"

text \<open>A store in which every path exists and every image decodes to the given mean.\<close>

definition bright_world :: "real \<Rightarrow> env" where
  "bright_world b = \<lparr>path_exists = (\<lambda>p. True), listdir = (\<lambda>p. []), file_bytes = (\<lambda>p. []),
     json_loads = (\<lambda>s. None), pil_verify = (\<lambda>p. True), cv_gray_mean = (\<lambda>p. GrayMean b),
     float_mean = exact_mean, linesep_crlf = False\<rparr>"

definition frame7 :: jrecord where
  "frame7 = \<lparr>r_index = 7, cam_image_array = Some ''7.jpg'', user_angle = Some 0.3\<rparr>"

text \<open>A store with nothing in it.\<close>

definition empty_world :: env where
  "empty_world = \<lparr>path_exists = (\<lambda>p. False), listdir = (\<lambda>p. []), file_bytes = (\<lambda>p. []),
     json_loads = (\<lambda>s. None), pil_verify = (\<lambda>p. False), cv_gray_mean = (\<lambda>p. NoImage),
     float_mean = exact_mean, linesep_crlf = False\<rparr>"

text \<open>
  A store with two catalogs, enumerated with the later one first. Record 1 is deleted in
  the manifest and its image is missing; the image of record 2 is in the images
  directory and decodes as given.
\<close>

definition tub_manifest :: string where
  "tub_manifest = ''{'' @ PAT @ ''1]}''"

definition tub_record :: "int \<Rightarrow> string \<Rightarrow> real \<Rightarrow> jrecord" where
  "tub_record i name a = \<lparr>r_index = i, cam_image_array = Some name, user_angle = Some a\<rparr>"

definition tub_world :: "decoded \<Rightarrow> env" where
  "tub_world d =
     \<lparr>path_exists = (\<lambda>p. p \<in> set [''tub'', ''tub/manifest.json'', ''tub/0.jpg'', ''tub/images/2.jpg'']),
      listdir = (\<lambda>p. if p = ''tub'' then [''catalog_1.catalog'', ''manifest.json'', ''catalog_0.catalog'']
                      else []),
      file_bytes = (\<lambda>p. if p = ''tub/manifest.json'' then tub_manifest
                        else if p = ''tub/catalog_0.catalog'' then ''0'' @ [nl] @ ''bad'' @ [nl] @ ''1'' @ [nl]
                        else if p = ''tub/catalog_1.catalog'' then ''2'' @ [nl]
                        else []),
      json_loads = (\<lambda>s. if s = ''0'' @ [nl] then Some (tub_record 0 ''0.jpg'' 0.3)
                         else if s = ''1'' @ [nl] then Some (tub_record 1 ''1.jpg'' 0)
                         else if s = ''2'' @ [nl] then Some (tub_record 2 ''2.jpg'' (- 0.2))
                         else None),
      pil_verify = (\<lambda>p. True),
      cv_gray_mean = (\<lambda>p. if p = ''tub/images/2.jpg'' then d else GrayMean 100),
      float_mean = exact_mean, linesep_crlf = False\<rparr>"

text \<open>
  Three records that form one run of zero angle, and the same with no image name in the
  second. The angles stand for the doubles nearest to them.
\<close>

definition run_records :: "jrecord list" where
  "run_records = [tub_record 0 ''0.jpg'' 0.01, tub_record 1 ''1.jpg'' 0.02, tub_record 2 ''2.jpg'' 0.01]"

definition gap_records :: "jrecord list" where
  "gap_records = [tub_record 0 ''0.jpg'' 0.01,
                  \<lparr>r_index = 1, cam_image_array = None, user_angle = Some 0.02\<rparr>,
                  tub_record 2 ''2.jpg'' 0.01]"

text \<open>The command line \<^verbatim>\<open>--tub=tub\<close>, without and with \<^verbatim>\<open>--remove\<close>.\<close>

definition tub_args :: "bool \<Rightarrow> args" where
  "tub_args remove = \<lparr>arg_tub = ''tub'', arg_remove = remove, arg_max_brightness = None,
     arg_min_brightness = None, arg_max_zero_angle_count = None\<rparr>"

text \<open>A manifest written without the space after the colon of the key.\<close>

definition compact_manifest :: string where
  "compact_manifest = ''{'' @ KEY @ ''[1]}''"

text \<open>A manifest as donkeycar writes it, with two more fields and a second line.\<close>

definition spaced_manifest :: string where
  "spaced_manifest =
     ''{'' @ [CHR 0x22] @ ''paths'' @ [CHR 0x22] @ '': [], '' @ PAT @ ''3, 1] , ''
       @ [CHR 0x22] @ ''max_len'' @ [CHR 0x22] @ '': 1000}'' @ [nl] @ ''x''"

text \<open>The same manifest in one line that ends with a carriage return and a newline.\<close>

definition crlf_manifest :: string where
  "crlf_manifest = ''{'' @ PAT @ ''1]}'' @ [cr, nl]"

text \<open>The same manifest in one line that ends with a newline.\<close>

definition lf_manifest :: string where
  "lf_manifest = ''{'' @ PAT @ ''1]}'' @ [nl]"

text \<open>A store with the given bytes in its manifest, and a problem entry for an index.\<close>

definition manifest_store :: "string \<Rightarrow> env" where
  "manifest_store bytes = \<lparr>path_exists = (\<lambda>p. True), listdir = (\<lambda>p. []),
     file_bytes = (\<lambda>p. if p = ''tub/manifest.json'' then bytes else []),
     json_loads = (\<lambda>s. None), pil_verify = (\<lambda>p. True), cv_gray_mean = (\<lambda>p. NoImage),
     float_mean = exact_mean, linesep_crlf = False\<rparr>"

text \<open>The same store on a platform whose line separator is a carriage return and a newline.\<close>

definition crlf_platform :: "env \<Rightarrow> env" where
  "crlf_platform e = e\<lparr>linesep_crlf := True\<rparr>"

definition missing :: "int \<Rightarrow> problem" where
  "missing i = (i, ''tub/x.jpg'', FileMissing)"

section \<open>The structure of a run\<close>

lemma quiet_simps [simp]:
  "quiet []" "quiet (xs @ ys) \<longleftrightarrow> quiet xs \<and> quiet ys"
  "quiet (m # xs) \<longleftrightarrow> \<not> is_problem_line m \<and> quiet xs"
  by (auto simp: quiet_def)

lemma read_lines_eq:
  "\<exists>x. read_lines e ls (recs, out) = (recs @ List.map_filter (json_loads e) ls, out @ x) \<and> quiet x"
proof (induction ls arbitrary: recs out)
  case Nil
  show ?case by (simp add: map_filter_simps)
next
  case (Cons l ls)
  show ?case
  proof (cases "json_loads e l")
    case None
    from Cons.IH [of recs "out @ [CannotParseRecord l]"] obtain x where
      "read_lines e ls (recs, out @ [CannotParseRecord l])
         = (recs @ List.map_filter (json_loads e) ls, (out @ [CannotParseRecord l]) @ x)" "quiet x"
      by blast
    with None show ?thesis
      by (intro exI [of _ "CannotParseRecord l # x"]) (simp add: map_filter_simps is_problem_line_def)
  next
    case (Some r)
    from Cons.IH [of "recs @ [r]" out] obtain x where
      "read_lines e ls (recs @ [r], out)
         = ((recs @ [r]) @ List.map_filter (json_loads e) ls, out @ x)" "quiet x"
      by blast
    with Some show ?thesis
      by (intro exI [of _ x]) (simp add: map_filter_simps)
  qed
qed

lemma read_catalogs_eq:
  "\<exists>x. read_catalogs e fs (recs, out) = (recs @ concat (map (catalog_records e) fs), out @ x) \<and> quiet x"
proof (induction fs arbitrary: recs out)
  case Nil
  show ?case by simp
next
  case (Cons f fs)
  obtain x where x: "read_lines e (iter_lines (read_text e f)) (recs, out)
       = (recs @ catalog_records e f, out @ x)" "quiet x"
    using read_lines_eq [of e "iter_lines (read_text e f)" recs out]
    by (auto simp: catalog_records_def)
  obtain y where "read_catalogs e fs (recs @ catalog_records e f, out @ x)
       = ((recs @ catalog_records e f) @ concat (map (catalog_records e) fs), (out @ x) @ y)" "quiet y"
    using Cons.IH [of "recs @ catalog_records e f" "out @ x"] by blast
  with x show ?case
    by (intro exI [of _ "x @ y"]) simp
qed

lemma check_record_quiet: "quiet (snd (check_record e tub D maxb minb r))"
  by (auto simp: check_record_def inspect_image_def is_valid_image_def check_brightness_def
      is_problem_line_def Let_def split: option.splits decoded.splits)

lemma frame_pass_eq:
  "\<exists>x. frame_pass e tub D maxb minb recs (probs, out)
        = (probs @ frame_problems e tub D maxb minb recs, out @ x) \<and> quiet x"
proof (induction recs arbitrary: probs out)
  case Nil
  show ?case by (simp add: frame_problems_def map_filter_simps)
next
  case (Cons r recs)
  obtain c o1 where c: "check_record e tub D maxb minb r = (c, o1)"
    by (cases "check_record e tub D maxb minb r")
  then have q: "quiet o1"
    using check_record_quiet [of e tub D maxb minb r] by simp
  show ?case
  proof (cases c)
    case None
    from Cons.IH [of probs "out @ o1"] obtain x where
      "frame_pass e tub D maxb minb recs (probs, out @ o1)
        = (probs @ frame_problems e tub D maxb minb recs, (out @ o1) @ x)" "quiet x"
      by blast
    with None c q show ?thesis
      by (intro exI [of _ "o1 @ x"]) (simp add: frame_problems_def map_filter_simps)
  next
    case (Some p)
    from Cons.IH [of "probs @ [p]" "out @ o1"] obtain x where
      "frame_pass e tub D maxb minb recs (probs @ [p], out @ o1)
        = ((probs @ [p]) @ frame_problems e tub D maxb minb recs, (out @ o1) @ x)" "quiet x"
      by blast
    with Some c q show ?thesis
      by (intro exI [of _ "o1 @ x"]) (simp add: frame_problems_def map_filter_simps)
  qed
qed

lemma clean_tub_data_load_error:
  assumes "store_ok e tub" "load_deleted_indexes (read_text e (manifest_path tub)) = Inl err"
  shows "clean_tub_data e tub remove maxb minb maxz = Inl err"
  using assms by (simp add: clean_tub_data_def store_ok_def manifest_path_def Let_def)

lemma clean_tub_data_run:
  assumes "store_ok e tub" "load_deleted_indexes (read_text e (manifest_path tub)) = Inr D"
  shows "\<exists>out4. quiet out4 \<and>
     clean_tub_data e tub remove maxb minb maxz =
       (case found_problems e tub D maxb minb maxz of
          Inl err \<Rightarrow> Inl err
        | Inr problem_images \<Rightarrow>
            if problem_images \<noteq> [] then
              if remove then
                Inr (out4 @ [FoundProblems (length problem_images)] @ report_lines problem_images
                       @ [AddedToDeleted (length problem_images)],
                     write_text e (manifest_path tub)
                       (commit_content (read_text e (manifest_path tub)) D (map fst problem_images)))
              else Inr (out4 @ [FoundProblems (length problem_images)] @ report_lines problem_images, e)
            else Inr (out4 @ [NoProblemsFound], e))"
proof -
  obtain x where x: "read_catalogs e (glob_catalogs e tub) ([], [AlreadyDeletedCount (card D)])
      = (all_records_of e tub, [AlreadyDeletedCount (card D)] @ x)" "quiet x"
    using read_catalogs_eq [of e "glob_catalogs e tub" "[]" "[AlreadyDeletedCount (card D)]"]
    by (auto simp: all_records_of_def)
  let ?recs = "all_records_of e tub"
  let ?out3 = "([AlreadyDeletedCount (card D)] @ x) @ [TotalRecords (length ?recs)]"
  obtain y where y: "frame_pass e tub D maxb minb ?recs ([], ?out3)
      = (frame_problems e tub D maxb minb ?recs, ?out3 @ y)" "quiet y"
    using frame_pass_eq [of e tub D maxb minb ?recs "[]" ?out3] by auto
  have q: "quiet (?out3 @ y)"
    using x(2) y(2) by (simp add: is_problem_line_def)
  show ?thesis
    using assms x(1) y(1) q
    by (intro exI [of _ "?out3 @ y"])
      (simp add: clean_tub_data_def store_ok_def manifest_path_def Let_def found_problems_def
        split: sum.splits)
qed

lemma clean_tub_data_abort:
  assumes "\<not> store_ok e tub"
  shows "\<exists>m. clean_tub_data e tub remove maxb minb maxz = Inr ([m], e) \<and>
           m \<in> {DirNotExist tub, NoCatalogFound tub, NoManifestFound tub}"
  using assms by (auto simp add: clean_tub_data_def store_ok_def manifest_path_def Let_def)

lemma clean_tub_data_found_error:
  assumes "store_ok e tub" "load_deleted_indexes (read_text e (manifest_path tub)) = Inr D"
    "found_problems e tub D maxb minb maxz = Inl err"
  shows "clean_tub_data e tub remove maxb minb maxz = Inl err"
  using clean_tub_data_run [OF assms(1,2), of remove maxb minb maxz] assms(3) by auto

lemma clean_tub_data_clean:
  assumes "store_ok e tub" "load_deleted_indexes (read_text e (manifest_path tub)) = Inr D"
    "found_problems e tub D maxb minb maxz = Inr []"
  shows "\<exists>out4. quiet out4 \<and>
           clean_tub_data e tub remove maxb minb maxz = Inr (out4 @ [NoProblemsFound], e)"
  using clean_tub_data_run [OF assms(1,2), of remove maxb minb maxz] assms(3) by auto

lemma clean_tub_data_report:
  assumes "store_ok e tub" "load_deleted_indexes (read_text e (manifest_path tub)) = Inr D"
    "found_problems e tub D maxb minb maxz = Inr probs" "probs \<noteq> []"
  shows "\<exists>out4. quiet out4 \<and>
           clean_tub_data e tub False maxb minb maxz =
             Inr (out4 @ [FoundProblems (length probs)] @ report_lines probs, e)"
  using clean_tub_data_run [OF assms(1,2), of False maxb minb maxz] assms(3,4) by auto

lemma clean_tub_data_commit:
  assumes "store_ok e tub" "load_deleted_indexes (read_text e (manifest_path tub)) = Inr D"
    "found_problems e tub D maxb minb maxz = Inr probs" "probs \<noteq> []"
  shows "\<exists>out4. quiet out4 \<and>
           clean_tub_data e tub True maxb minb maxz =
             Inr (out4 @ [FoundProblems (length probs)] @ report_lines probs
                    @ [AddedToDeleted (length probs)],
                  committed e tub D probs)"
  using clean_tub_data_run [OF assms(1,2), of True maxb minb maxz] assms(3,4)
  by (auto simp: committed_def write_text_def)

lemma quiet_no_problem_line: "quiet out \<Longrightarrow> ProblemLine i p r \<notin> set out"
  by (auto simp: quiet_def is_problem_line_def)

lemma report_lines_iff: "ProblemLine i p r \<in> set (report_lines probs) \<longleftrightarrow> (i, p, r) \<in> set probs"
  by (force simp: report_lines_def)

text \<open>
  What a run prints about problems is the list of problems it found: a run on a store
  that has its three parts either ends with an exception or prints a report line for
  exactly the entries of \<open>found_problems\<close>, and changes the world only if it found some.
\<close>

lemma clean_tub_data_result:
  assumes "store_ok e tub" "load_deleted_indexes (read_text e (manifest_path tub)) = Inr D"
    "clean_tub_data e tub remove maxb minb maxz = Inr (out, e')"
  shows "\<exists>probs. found_problems e tub D maxb minb maxz = Inr probs \<and>
           (\<forall>i p r. ProblemLine i p r \<in> set out \<longleftrightarrow> (i, p, r) \<in> set probs) \<and>
           e' = (if probs \<noteq> [] \<and> remove then committed e tub D probs else e)"
proof (cases "found_problems e tub D maxb minb maxz")
  case (Inl err)
  with assms show ?thesis
    by (simp add: clean_tub_data_found_error)
next
  case (Inr probs)
  show ?thesis
  proof (cases "probs = []")
    case True
    with clean_tub_data_clean [OF assms(1,2), of maxb minb maxz remove] Inr assms(3) show ?thesis
      by (auto dest: quiet_no_problem_line)
  next
    case False
    show ?thesis
    proof (cases remove)
      case True
      with clean_tub_data_commit [OF assms(1,2) Inr False] assms(3) Inr False show ?thesis
        by (auto simp: report_lines_iff dest: quiet_no_problem_line)
    next
      case no: False
      with clean_tub_data_report [OF assms(1,2) Inr False] assms(3) Inr False show ?thesis
        by (auto simp: report_lines_iff dest: quiet_no_problem_line)
    qed
  qed
qed

section \<open>The pass over the runs\<close>

lemma flag_sequence_step:
  "flag_sequence e tub recs D (idx # rest) probs =
     (if idx < length recs then flag_sequence e tub recs D rest (flag_one e tub recs D idx probs)
      else Inl IndexError)"
  by (auto simp: flag_one_def resolved_image_def Let_def split: option.splits)

declare flag_sequence.simps(2) [simp del]

lemma flag_one_cases:
  "flag_one e tub recs D idx probs = probs \<and>
     (r_index (recs ! idx) \<notin> D \<and> resolved_image e tub (recs ! idx) \<noteq> None
        \<longrightarrow> r_index (recs ! idx) \<in> fst ` set probs)
   \<or> (\<exists>p. flag_one e tub recs D idx probs = probs @ [(r_index (recs ! idx), p, ZeroAngleSequence)] \<and>
        r_index (recs ! idx) \<notin> D \<and> r_index (recs ! idx) \<notin> fst ` set probs \<and>
        resolved_image e tub (recs ! idx) = Some p)"
  by (auto simp: flag_one_def Let_def split: option.splits)

lemma flag_sequence_result:
  assumes "\<forall>pos \<in> set seq. pos < length recs"
  shows "\<exists>added. flag_sequence e tub recs D seq probs = Inr (probs @ added) \<and>
     (\<forall>x \<in> set added. zero_entry e tub recs D seq x \<and> fst x \<notin> fst ` set probs) \<and>
     covered e tub recs D seq (probs @ added)"
  using assms
proof (induction seq arbitrary: probs)
  case Nil
  show ?case by (simp add: covered_def)
next
  case (Cons idx rest)
  let ?p1 = "flag_one e tub recs D idx probs"
  from Cons.prems have r: "\<forall>pos \<in> set rest. pos < length recs" and i: "idx < length recs"
    by auto
  from Cons.IH [OF r, of ?p1] obtain added where
    a: "flag_sequence e tub recs D rest ?p1 = Inr (?p1 @ added)"
      "\<forall>x \<in> set added. zero_entry e tub recs D rest x \<and> fst x \<notin> fst ` set ?p1"
      "covered e tub recs D rest (?p1 @ added)"
    by blast
  have z: "zero_entry e tub recs D rest x \<Longrightarrow> zero_entry e tub recs D (idx # rest) x" for x
    by (auto simp: zero_entry_def)
  from flag_one_cases [of e tub recs D idx probs] show ?case
  proof (elim disjE conjE exE)
    assume s: "?p1 = probs"
      and c: "r_index (recs ! idx) \<notin> D \<and> resolved_image e tub (recs ! idx) \<noteq> None
        \<longrightarrow> r_index (recs ! idx) \<in> fst ` set probs"
    have "covered e tub recs D (idx # rest) (probs @ added)"
      using a(3) c s by (auto simp: covered_def)
    with a(1,2) s i z show ?thesis
      by (intro exI [of _ added]) (auto simp: flag_sequence_step)
  next
    fix p
    assume s: "?p1 = probs @ [(r_index (recs ! idx), p, ZeroAngleSequence)]"
      and c: "r_index (recs ! idx) \<notin> D" "r_index (recs ! idx) \<notin> fst ` set probs"
        "resolved_image e tub (recs ! idx) = Some p"
    let ?x = "(r_index (recs ! idx), p, ZeroAngleSequence)"
    have zx: "zero_entry e tub recs D (idx # rest) ?x"
      using c by (simp add: zero_entry_def)
    have "covered e tub recs D (idx # rest) (probs @ ?x # added)"
      using a(3) s by (auto simp: covered_def)
    moreover have "flag_sequence e tub recs D (idx # rest) probs = Inr (probs @ ?x # added)"
      using a(1) s i by (simp add: flag_sequence_step)
    moreover have "\<forall>x \<in> set (?x # added). zero_entry e tub recs D (idx # rest) x \<and> fst x \<notin> fst ` set probs"
      using a(2) s c(2) zx z by auto
    ultimately show ?thesis
      by (intro exI [of _ "?x # added"]) blast
  qed
qed

lemma process_sequence_suppressed:
  assumes "seq \<noteq> []" "\<not> run_flagged e recs maxz seq"
  shows "process_sequence e tub recs D maxz seq probs = Inr probs"
  using assms by (auto simp: process_sequence_def run_flagged_def Let_def)

lemma process_sequence_flagged:
  assumes "seq \<noteq> []" "run_flagged e recs maxz seq"
  shows "process_sequence e tub recs D maxz seq probs = flag_sequence e tub recs D seq probs"
  using assms by (auto simp: process_sequence_def run_flagged_def Let_def)

lemma zero_pass_result:
  assumes "\<forall>seq \<in> set seqs. in_range recs seq"
  shows "\<exists>added. zero_pass e tub recs D maxz seqs probs = Inr (probs @ added) \<and>
     (\<forall>x \<in> set added. \<exists>seq \<in> set seqs. run_flagged e recs maxz seq \<and> zero_entry e tub recs D seq x) \<and>
     (\<forall>seq \<in> set seqs. run_flagged e recs maxz seq \<longrightarrow> covered e tub recs D seq (probs @ added))"
  using assms
proof (induction seqs arbitrary: probs)
  case Nil
  show ?case by simp
next
  case (Cons seq seqs)
  from Cons.prems have ne: "seq \<noteq> []" and rg: "\<forall>pos \<in> set seq. pos < length recs"
    and rest: "\<forall>s \<in> set seqs. in_range recs s"
    by (auto simp: in_range_def)
  show ?case
  proof (cases "run_flagged e recs maxz seq")
    case False
    from Cons.IH [OF rest, of probs] obtain added where
      a: "zero_pass e tub recs D maxz seqs probs = Inr (probs @ added)"
        "\<forall>x \<in> set added. \<exists>s \<in> set seqs. run_flagged e recs maxz s \<and> zero_entry e tub recs D s x"
        "\<forall>s \<in> set seqs. run_flagged e recs maxz s \<longrightarrow> covered e tub recs D s (probs @ added)"
      by blast
    with False ne show ?thesis
      by (intro exI [of _ added]) (auto simp: process_sequence_suppressed)
  next
    case True
    from flag_sequence_result [OF rg, of e tub D probs] obtain a1 where
      f: "flag_sequence e tub recs D seq probs = Inr (probs @ a1)"
        "\<forall>x \<in> set a1. zero_entry e tub recs D seq x \<and> fst x \<notin> fst ` set probs"
        "covered e tub recs D seq (probs @ a1)"
      by blast
    from Cons.IH [OF rest, of "probs @ a1"] obtain a2 where
      a: "zero_pass e tub recs D maxz seqs (probs @ a1) = Inr ((probs @ a1) @ a2)"
        "\<forall>x \<in> set a2. \<exists>s \<in> set seqs. run_flagged e recs maxz s \<and> zero_entry e tub recs D s x"
        "\<forall>s \<in> set seqs. run_flagged e recs maxz s \<longrightarrow> covered e tub recs D s ((probs @ a1) @ a2)"
      by blast
    have "covered e tub recs D seq (probs @ a1 @ a2)"
      using f(3) by (auto simp: covered_def)
    with True ne f(1,2) a show ?thesis
      by (intro exI [of _ "a1 @ a2"]) (auto simp: process_sequence_flagged)
  qed
qed

lemma zero_scan_range:
  assumes "\<forall>seq \<in> set zs. seq \<noteq> [] \<and> (\<forall>pos \<in> set seq. pos < i + length rs)"
    "\<forall>pos \<in> set cur. pos < i + length rs"
  shows "\<forall>seq \<in> set (zero_scan i rs zs cur). seq \<noteq> [] \<and> (\<forall>pos \<in> set seq. pos < i + length rs)"
  using assms
proof (induction rs arbitrary: i zs cur)
  case Nil
  then show ?case by auto
next
  case (Cons r rs)
  have eq: "Suc i + length rs = i + length (r # rs)" by simp
  show ?case
  proof (cases "near_zero r")
    case True
    have "\<forall>seq\<in>set (zero_scan (Suc i) rs zs (cur @ [i])).
       seq \<noteq> [] \<and> (\<forall>pos\<in>set seq. pos < Suc i + length rs)"
      using Cons.prems by (intro Cons.IH) auto
    with True show ?thesis by (simp only: eq) simp
  next
    case False
    show ?thesis
    proof (cases "cur = []")
      case True
      have "\<forall>seq\<in>set (zero_scan (Suc i) rs zs cur).
         seq \<noteq> [] \<and> (\<forall>pos\<in>set seq. pos < Suc i + length rs)"
        using Cons.prems by (intro Cons.IH) auto
      with True False show ?thesis by (simp only: eq) simp
    next
      case ne: False
      have "\<forall>seq\<in>set (zero_scan (Suc i) rs (zs @ [cur]) []).
         seq \<noteq> [] \<and> (\<forall>pos\<in>set seq. pos < Suc i + length rs)"
        using Cons.prems ne by (intro Cons.IH) auto
      with ne False show ?thesis by (simp only: eq) simp
    qed
  qed
qed

lemma get_zero_angle_sequences_range:
  "\<forall>seq \<in> set (get_zero_angle_sequences recs). in_range recs seq"
  using zero_scan_range [of "[]" 0 recs "[]"]
  by (simp add: get_zero_angle_sequences_def in_range_def)

section \<open>Runs on the example store\<close>

lemma tub_world_deleted:
  "load_deleted_indexes (read_text (tub_world NoImage) (manifest_path ''tub'')) = Inr {1}"
  by code_simp

lemma tub_world_report_run:
  "\<not> isl (clean_tub_data (tub_world NoImage) ''tub'' False 250 20 10)"
  "fst (projr (clean_tub_data (tub_world NoImage) ''tub'' False 250 20 10)) =
     [AlreadyDeletedCount 1, CannotParseRecord (''bad'' @ [nl]), TotalRecords 3, FoundProblems 1,
      ProblemLine 2 ''tub/images/2.jpg'' (BrightnessAbnormal 0)]"
  by code_simp+

lemma tub_world_clean_run:
  "\<not> isl (clean_tub_data (tub_world (GrayMean 100)) ''tub'' True 250 20 10)"
  "fst (projr (clean_tub_data (tub_world (GrayMean 100)) ''tub'' True 250 20 10)) =
     [AlreadyDeletedCount 1, CannotParseRecord (''bad'' @ [nl]), TotalRecords 3, NoProblemsFound]"
  by code_simp+

section \<open>Deleted records\<close>

lemma found_problems_total:
  "\<exists>added. found_problems e tub D maxb minb maxz =
     Inr (frame_problems e tub D maxb minb (all_records_of e tub) @ added) \<and>
     (\<forall>x \<in> set added. \<exists>seq \<in> set (get_zero_angle_sequences (all_records_of e tub)).
         run_flagged e (all_records_of e tub) maxz seq \<and> zero_entry e tub (all_records_of e tub) D seq x) \<and>
     (\<forall>seq \<in> set (get_zero_angle_sequences (all_records_of e tub)).
         run_flagged e (all_records_of e tub) maxz seq \<longrightarrow>
         covered e tub (all_records_of e tub) D seq
           (frame_problems e tub D maxb minb (all_records_of e tub) @ added))"
  unfolding found_problems_def Let_def
  by (rule zero_pass_result [OF get_zero_angle_sequences_range])

lemma check_record_deleted:
  "r_index record \<in> D \<Longrightarrow> check_record e tub D maxb minb record = (None, [])"
  by (simp add: check_record_def)

lemma inspect_image_index:
  "fst (inspect_image e tub maxb minb record) = Some x \<Longrightarrow> fst x = r_index record"
  by (auto simp: inspect_image_def Let_def split: option.splits if_splits prod.splits bool.splits)

lemma check_record_Some:
  "fst (check_record e tub D maxb minb record) = Some x \<longleftrightarrow>
     r_index record \<notin> D \<and> fst (inspect_image e tub maxb minb record) = Some x"
  by (simp add: check_record_def)

lemma set_map_filter:
  "set (List.map_filter f xs) = {y. \<exists>x \<in> set xs. f x = Some y}"
  by (induction xs) (auto split: option.splits)

lemma frame_problems_iff:
  "x \<in> set (frame_problems e tub D maxb minb recs) \<longleftrightarrow>
     (\<exists>record \<in> set recs. r_index record \<notin> D \<and> fst (inspect_image e tub maxb minb record) = Some x)"
  by (auto simp: frame_problems_def set_map_filter check_record_Some)

lemma frame_problems_not_deleted:
  "x \<in> set (frame_problems e tub D maxb minb recs) \<Longrightarrow> fst x \<notin> D"
  by (auto simp: frame_problems_iff dest: inspect_image_index)

lemma found_problems_not_deleted:
  assumes "found_problems e tub D maxb minb maxz = Inr probs" "x \<in> set probs"
  shows "fst x \<notin> D"
proof -
  from found_problems_total [of e tub D maxb minb maxz] assms(1) obtain added where
    a: "probs = frame_problems e tub D maxb minb (all_records_of e tub) @ added"
      "\<forall>x \<in> set added. \<exists>seq \<in> set (get_zero_angle_sequences (all_records_of e tub)).
         run_flagged e (all_records_of e tub) maxz seq \<and> zero_entry e tub (all_records_of e tub) D seq x"
    by auto
  with assms(2) show ?thesis
    by (auto simp: zero_entry_def dest: frame_problems_not_deleted)
qed

lemma flag_sequence_not_deleted:
  "flag_sequence e tub recs D seq probs = Inr after \<Longrightarrow> x \<in> set after \<Longrightarrow>
   x \<in> set probs \<or> fst x \<notin> D"
proof (induction seq arbitrary: probs)
  case Nil
  then show ?case by simp
next
  case (Cons idx rest)
  from Cons.prems(1) have "flag_sequence e tub recs D rest (flag_one e tub recs D idx probs) = Inr after"
    by (simp add: flag_sequence_step split: if_splits)
  from Cons.IH [OF this Cons.prems(2)] flag_one_cases [of e tub recs D idx probs]
  show ?case by auto
qed

lemma process_sequence_not_deleted:
  "process_sequence e tub recs D maxz seq probs = Inr after \<Longrightarrow> x \<in> set after \<Longrightarrow>
   x \<in> set probs \<or> fst x \<notin> D"
  by (auto simp: process_sequence_def Let_def split: if_splits dest: flag_sequence_not_deleted)

lemma zero_pass_not_deleted:
  "zero_pass e tub recs D maxz seqs probs = Inr after \<Longrightarrow> x \<in> set after \<Longrightarrow>
   x \<in> set probs \<or> fst x \<notin> D"
proof (induction seqs arbitrary: probs)
  case Nil
  then show ?case by simp
next
  case (Cons seq seqs)
  from Cons.prems(1) obtain mid where
    m: "process_sequence e tub recs D maxz seq probs = Inr mid"
      "zero_pass e tub recs D maxz seqs mid = Inr after"
    by (auto split: sum.splits)
  from Cons.IH [OF m(2) Cons.prems(2)] process_sequence_not_deleted [OF m(1), of x]
  show ?case by auto
qed

text \<open>
  Claim C1. Let \<open>D\<close> be the deletion index loaded from the manifest and \<open>i\<close> an index
  in it. The body of the first loop skips every record with index \<open>i\<close>: it makes no
  entry and prints nothing, so no check ran. The pass over the runs adds no entry with
  index \<open>i\<close> to the problem list it starts from, whatever the records and the runs.
  And no report line of the audit carries index \<open>i\<close>.
\<close>

theorem deleted_never_reported:
  "load_deleted_indexes (read_text e (manifest_path tub)) = Inr D \<Longrightarrow> i \<in> D \<Longrightarrow>
   (\<forall>record. r_index record = i \<longrightarrow> check_record e tub D maxb minb record = (None, [])) \<and>
   (\<forall>recs seqs probs after. zero_pass e tub recs D maxz seqs probs = Inr after \<longrightarrow>
      (\<forall>x \<in> set after. fst x = i \<longrightarrow> x \<in> set probs)) \<and>
   (\<forall>out e'. clean_tub_data e tub remove maxb minb maxz = Inr (out, e') \<longrightarrow>
      (\<forall>p r. ProblemLine i p r \<notin> set out))"
proof (intro conjI allI impI)
  fix rcd :: jrecord
  assume "i \<in> D" "r_index rcd = i"
  then show "check_record e tub D maxb minb rcd = (None, [])"
    by (simp add: check_record_deleted)
next
  fix out e' p r
  assume ld: "load_deleted_indexes (read_text e (manifest_path tub)) = Inr D" and i: "i \<in> D"
    and run: "clean_tub_data e tub remove maxb minb maxz = Inr (out, e')"
  show "ProblemLine i p r \<notin> set out"
  proof (cases "store_ok e tub")
    case False
    with run clean_tub_data_abort [of e tub remove maxb minb maxz] show ?thesis
      by auto
  next
    case True
    from clean_tub_data_result [OF True ld run] obtain probs where
      p: "found_problems e tub D maxb minb maxz = Inr probs"
        "\<forall>i p r. ProblemLine i p r \<in> set out \<longleftrightarrow> (i, p, r) \<in> set probs"
      by blast
    from found_problems_not_deleted [OF p(1), of "(i, p, r)"] i p(2) show ?thesis
      by auto
  qed
next
  fix recs seqs probs after
  assume i: "i \<in> D" and z: "zero_pass e tub recs D maxz seqs probs = Inr after"
  show "\<forall>x \<in> set after. fst x = i \<longrightarrow> x \<in> set probs"
    using zero_pass_not_deleted [OF z] i by blast
qed

theorem deleted_never_reported_witness:
  "load_deleted_indexes (read_text (tub_world NoImage) (manifest_path ''tub'')) = Inr {1} \<and>
   (1::int) \<in> {1} \<and>
   check_record (tub_world NoImage) ''tub'' {1} 250 20 (tub_record 1 ''1.jpg'' 0) = (None, []) \<and>
   ProblemLine 1 ''tub/1.jpg'' FileMissing
     \<notin> set (fst (projr (clean_tub_data (tub_world NoImage) ''tub'' False 250 20 10)))"
proof -
  obtain out e' where r: "clean_tub_data (tub_world NoImage) ''tub'' False 250 20 10 = Inr (out, e')"
    using tub_world_report_run(1) by (cases "clean_tub_data (tub_world NoImage) ''tub'' False 250 20 10") auto
  have i: "(1::int) \<in> {1}" by simp
  have x: "r_index (tub_record 1 ''1.jpg'' 0) = 1" by (simp add: tub_record_def)
  from deleted_never_reported [OF tub_world_deleted i, of 250 20 10 False] r x tub_world_deleted
  show ?thesis by auto
qed

section \<open>Brightness bounds\<close>

lemma check_record_brightness:
  assumes "r_index record \<notin> D" "cam_image_array record = Some fn" "fn \<noteq> []"
    "get_image_path e tub fn = Some p" "pil_verify e p" "cv_gray_mean e p = GrayMean b"
  shows "fst (check_record e tub D maxb minb record) =
           (if b < minb \<or> b > maxb then Some (r_index record, p, BrightnessAbnormal b) else None)"
  using assms
  by (simp add: check_record_def inspect_image_def is_valid_image_def check_brightness_def)

text \<open>
  Claim C6. For a record that is not deleted and whose image file is found and passes
  the structural verification, with mean intensity \<open>b\<close>: when \<open>b\<close> equals
  \<open>min_brightness\<close> or \<open>max_brightness\<close> (the bounds of an interval, so
  \<open>min_brightness \<le> max_brightness\<close>) no entry is made; when \<open>b\<close> is strictly below
  \<open>min_brightness\<close> or strictly above \<open>max_brightness\<close> the entry is a brightness
  problem that carries \<open>b\<close>; and no entry is made exactly when \<open>b\<close> lies in the closed
  interval.
\<close>

theorem brightness_bounds_inclusive:
  "r_index record \<notin> D \<Longrightarrow> cam_image_array record = Some fn \<Longrightarrow> fn \<noteq> [] \<Longrightarrow>
   get_image_path e tub fn = Some p \<Longrightarrow> pil_verify e p \<Longrightarrow> cv_gray_mean e p = GrayMean b \<Longrightarrow>
   (minb \<le> maxb \<and> (b = minb \<or> b = maxb) \<longrightarrow>
      fst (check_record e tub D maxb minb record) = None) \<and>
   (b < minb \<or> b > maxb \<longrightarrow>
      fst (check_record e tub D maxb minb record) = Some (r_index record, p, BrightnessAbnormal b)) \<and>
   (fst (check_record e tub D maxb minb record) = None \<longleftrightarrow> minb \<le> b \<and> b \<le> maxb)"
  by (auto simp add: check_record_brightness)

theorem brightness_bounds_inclusive_witness:
  "fst (check_record (bright_world 20) ''tub'' {} 250 20 frame7) = None \<and>
   fst (check_record (bright_world 250) ''tub'' {} 250 20 frame7) = None \<and>
   fst (check_record (bright_world 19) ''tub'' {} 250 20 frame7)
     = Some (7, ''tub/7.jpg'', BrightnessAbnormal 19) \<and>
   fst (check_record (bright_world 251) ''tub'' {} 250 20 frame7)
     = Some (7, ''tub/7.jpg'', BrightnessAbnormal 251)"
proof -
  have p: "get_image_path (bright_world b) ''tub'' ''7.jpg'' = Some ''tub/7.jpg''" for b
    by (simp add: get_image_path_def bright_world_def path_join_def suffix_to_prefix)
  have r: "r_index frame7 \<notin> {}" "cam_image_array frame7 = Some ''7.jpg''" "''7.jpg'' \<noteq> []"
    "r_index frame7 = 7"
    by (simp_all add: frame7_def)
  have v: "pil_verify (bright_world b) ''tub/7.jpg''"
    "cv_gray_mean (bright_world b) ''tub/7.jpg'' = GrayMean b" for b
    by (simp_all add: bright_world_def)
  note t = brightness_bounds_inclusive [OF r(1) r(2) r(3) p v(1) v(2)]
  show ?thesis
    using t [where b = 20 and minb = 20 and maxb = 250]
      t [where b = 250 and minb = 20 and maxb = 250]
      t [where b = 19 and minb = 20 and maxb = 250]
      t [where b = 251 and minb = 20 and maxb = 250]
    by (simp add: r(4))
qed

section \<open>Store-level failures\<close>

text \<open>
  Claim C8. If the store root does not exist, or no catalog file is found in it, or the
  manifest does not exist, \<open>clean_tub_data\<close> returns after printing one line, which names
  the cause; nothing else is printed (no line of any check, no report), and the world is
  the one it started in.
\<close>

theorem store_failure_aborts:
  "\<not> path_exists e tub \<or> glob_catalogs e tub = [] \<or> \<not> path_exists e (manifest_path tub) \<Longrightarrow>
   \<exists>m. clean_tub_data e tub remove maxb minb maxz = Inr ([m], e) \<and>
       m \<in> {DirNotExist tub, NoCatalogFound tub, NoManifestFound tub}"
  by (auto simp add: clean_tub_data_def manifest_path_def Let_def)

theorem store_failure_aborts_witness:
  "\<not> path_exists empty_world ''tub'' \<and>
   clean_tub_data empty_world ''tub'' True 250 20 10 = Inr ([DirNotExist ''tub''], empty_world)"
proof -
  have h: "\<not> path_exists empty_world ''tub''"
    by (simp add: empty_world_def)
  then have "\<not> path_exists empty_world ''tub'' \<or> glob_catalogs empty_world ''tub'' = [] \<or>
      \<not> path_exists empty_world (manifest_path ''tub'')"
    by simp
  from store_failure_aborts [OF this, of True 250 20 10] h show ?thesis
    by (auto simp add: clean_tub_data_def)
qed

section \<open>Runs without problems\<close>

text \<open>
  Claim C10. If a run of the audit returns and none of the lines it printed is a report
  line for a problem (it found none), the world it leaves is the world it started in,
  whatever the \<open>remove\<close> flag: no file was written, so the manifest is unchanged.
\<close>

theorem no_problems_no_write:
  "clean_tub_data e tub remove maxb minb maxz = Inr (out, e') \<Longrightarrow>
   (\<forall>i p r. ProblemLine i p r \<notin> set out) \<Longrightarrow> e' = e"
proof -
  assume run: "clean_tub_data e tub remove maxb minb maxz = Inr (out, e')"
    and none: "\<forall>i p r. ProblemLine i p r \<notin> set out"
  show "e' = e"
  proof (cases "store_ok e tub")
    case False
    with run clean_tub_data_abort [of e tub remove maxb minb maxz] show ?thesis
      by auto
  next
    case True
    show ?thesis
    proof (cases "load_deleted_indexes (read_text e (manifest_path tub))")
      case (Inl err)
      with True run show ?thesis
        by (simp add: clean_tub_data_load_error)
    next
      case (Inr D)
      from clean_tub_data_result [OF True Inr run] obtain probs where
        p: "\<forall>i p r. ProblemLine i p r \<in> set out \<longleftrightarrow> (i, p, r) \<in> set probs"
          "e' = (if probs \<noteq> [] \<and> remove then committed e tub D probs else e)"
        by blast
      from p(1) none have "probs = []"
        by (cases probs) auto
      with p(2) show ?thesis by simp
    qed
  qed
qed

theorem no_problems_no_write_witness:
  "fst (projr (clean_tub_data (tub_world (GrayMean 100)) ''tub'' True 250 20 10)) =
     [AlreadyDeletedCount 1, CannotParseRecord (''bad'' @ [nl]), TotalRecords 3, NoProblemsFound] \<and>
   snd (projr (clean_tub_data (tub_world (GrayMean 100)) ''tub'' True 250 20 10))
     = tub_world (GrayMean 100)"
proof -
  obtain out e' where
    r: "clean_tub_data (tub_world (GrayMean 100)) ''tub'' True 250 20 10 = Inr (out, e')"
    using tub_world_clean_run(1)
    by (cases "clean_tub_data (tub_world (GrayMean 100)) ''tub'' True 250 20 10") auto
  with tub_world_clean_run(2) have o: "out = [AlreadyDeletedCount 1, CannotParseRecord (''bad'' @ [nl]),
      TotalRecords 3, NoProblemsFound]"
    by simp
  then have "\<forall>i p r. ProblemLine i p r \<notin> set out" by simp
  from no_problems_no_write [OF r this] r o show ?thesis by simp
qed

section \<open>The order of the records\<close>

text \<open>
  Claim C4 as stated fails. The loaded record list is not sorted by index: on the example store,
  whose directory lists the second catalog before the first, the indices of the loaded
  records are 2, 0, 1.
\<close>

theorem records_not_sorted_counterexample:
  "\<not> sorted (map r_index
      (fst (read_catalogs (tub_world NoImage) (glob_catalogs (tub_world NoImage) ''tub'') ([], []))))"
  by code_simp

text \<open>
  Claim C4, amended. The record list produced by the loading loops is the concatenation,
  in the enumeration order of the catalog files, of the records parsed from each file's
  lines in line order (appended to the list the loops start from, which is empty in the
  audit). Nothing is sorted.
\<close>

theorem records_in_enumeration_order:
  "fst (read_catalogs e (glob_catalogs e tub) (recs, out)) =
     recs @ concat (map (catalog_records e) (glob_catalogs e tub))"
  using read_catalogs_eq [of e "glob_catalogs e tub" recs out] by auto

theorem records_in_enumeration_order_witness:
  "map r_index (fst (read_catalogs (tub_world NoImage) (glob_catalogs (tub_world NoImage) ''tub'') ([], [])))
     = [2, 0, 1] \<and>
   glob_catalogs (tub_world NoImage) ''tub'' = [''tub/catalog_1.catalog'', ''tub/catalog_0.catalog''] \<and>
   map r_index (catalog_records (tub_world NoImage) ''tub/catalog_1.catalog'') = [2] \<and>
   map r_index (catalog_records (tub_world NoImage) ''tub/catalog_0.catalog'') = [0, 1]"
proof -
  have g: "glob_catalogs (tub_world NoImage) ''tub'' = [''tub/catalog_1.catalog'', ''tub/catalog_0.catalog'']"
    by code_simp
  have c: "map r_index (catalog_records (tub_world NoImage) ''tub/catalog_1.catalog'') = [2]"
    "map r_index (catalog_records (tub_world NoImage) ''tub/catalog_0.catalog'') = [0, 1]"
    by code_simp+
  from records_in_enumeration_order [of "tub_world NoImage" "''tub''" "[]" "[]"] g c
  show ?thesis by simp
qed

section \<open>Decode failures in the brightness check\<close>

text \<open>
  Claim C5 as stated fails. A failed decode in the brightness check is not reported as
  an invalid image: in the example store the image of record 2 exists and is verified, OpenCV
  returns no image, and the entry made and the line reported carry the brightness reason
  with value 0.
\<close>

theorem decode_failure_counterexample:
  "path_exists (tub_world NoImage) ''tub/images/2.jpg'' \<and>
   pil_verify (tub_world NoImage) ''tub/images/2.jpg'' \<and>
   cv_gray_mean (tub_world NoImage) ''tub/images/2.jpg'' = NoImage \<and>
   fst (check_record (tub_world NoImage) ''tub'' {1} 250 20 (tub_record 2 ''2.jpg'' (- 0.2)))
     = Some (2, ''tub/images/2.jpg'', BrightnessAbnormal 0) \<and>
   BrightnessAbnormal 0 \<noteq> FormatInvalid \<and>
   ProblemLine 2 ''tub/images/2.jpg'' (BrightnessAbnormal 0)
     \<in> set (fst (projr (clean_tub_data (tub_world NoImage) ''tub'' False 250 20 10)))"
  by (simp add: tub_world_report_run(2)) code_simp

text \<open>
  Claim C5, amended. For a record that is not deleted and whose image file is found and
  passes the structural verification, if the decode for the brightness computation
  returns no image or raises, the entry made has the brightness reason with value 0.
\<close>

theorem decode_failure_is_brightness_zero:
  "r_index record \<notin> D \<Longrightarrow> cam_image_array record = Some fn \<Longrightarrow> fn \<noteq> [] \<Longrightarrow>
   get_image_path e tub fn = Some p \<Longrightarrow> pil_verify e p \<Longrightarrow>
   cv_gray_mean e p = NoImage \<or> cv_gray_mean e p = DecodeRaises \<Longrightarrow>
   fst (check_record e tub D maxb minb record) = Some (r_index record, p, BrightnessAbnormal 0)"
  by (auto simp add: check_record_def inspect_image_def is_valid_image_def check_brightness_def)

theorem decode_failure_is_brightness_zero_witness:
  "get_image_path (tub_world NoImage) ''tub'' ''2.jpg'' = Some ''tub/images/2.jpg'' \<and>
   pil_verify (tub_world NoImage) ''tub/images/2.jpg'' \<and>
   cv_gray_mean (tub_world NoImage) ''tub/images/2.jpg'' = NoImage \<and>
   fst (check_record (tub_world NoImage) ''tub'' {1} 250 20 (tub_record 2 ''2.jpg'' (- 0.2)))
     = Some (2, ''tub/images/2.jpg'', BrightnessAbnormal 0)"
proof -
  have p: "get_image_path (tub_world NoImage) ''tub'' ''2.jpg'' = Some ''tub/images/2.jpg''"
    by code_simp
  have r: "r_index (tub_record 2 ''2.jpg'' (- 0.2)) \<notin> {1}"
    "cam_image_array (tub_record 2 ''2.jpg'' (- 0.2)) = Some ''2.jpg''" "''2.jpg'' \<noteq> []"
    "r_index (tub_record 2 ''2.jpg'' (- 0.2)) = 2"
    by (simp_all add: tub_record_def)
  have v: "pil_verify (tub_world NoImage) ''tub/images/2.jpg''"
    "cv_gray_mean (tub_world NoImage) ''tub/images/2.jpg'' = NoImage"
    by (simp_all add: tub_world_def)
  from v(2) have d: "cv_gray_mean (tub_world NoImage) ''tub/images/2.jpg'' = NoImage \<or>
      cv_gray_mean (tub_world NoImage) ''tub/images/2.jpg'' = DecodeRaises"
    by simp
  from decode_failure_is_brightness_zero [OF r(1) r(2) r(3) p v(1) d, of 250 20] p v r(4)
  show ?thesis by simp
qed

section \<open>Long runs of zero angle\<close>

text \<open>
  Claim C3 as stated fails. Not every position of a marked run whose index is neither
  deleted nor already a problem becomes a problem: a record without an image name is passed
  over. In the three records below, which form one run longer than the threshold 2 with
  no record on either side, the second record has no image name; its index 1 is not
  deleted and not in the (empty) problem list, and the run adds entries for the indices
  0 and 2 only.
\<close>

theorem zero_run_counterexample:
  "get_zero_angle_sequences gap_records = [[0, 1, 2]] \<and>
   int (length [0::nat, 1, 2]) > 2 \<and>
   avg (bright_world 100) (pre_seq_angles gap_records 0) \<le> float_0_1 \<and>
   avg (bright_world 100) (post_seq_angles gap_records 2) \<le> float_0_1 \<and>
   r_index (gap_records ! 1) = 1 \<and>
   process_sequence (bright_world 100) ''tub'' gap_records {} 2 [0, 1, 2] []
     = Inr [(0, ''tub/0.jpg'', ZeroAngleSequence), (2, ''tub/2.jpg'', ZeroAngleSequence)]"
  by code_simp

text \<open>
  Claim C3, amended. Take a run found by \<open>get_zero_angle_sequences\<close> that is longer than
  \<open>max_zero_angle_count\<close>, and any problem list \<open>probs\<close> collected so far. The two means are
  those of the absolute angles of the records with an angle among the up to five before
  the run and among the up to five after it, each as the interpreter computes it in
  floating point (0 for an empty list), and the bound is the double nearest to 0.1. If
  one of the means is strictly greater than the bound, the step for this run leaves the
  problem list as it is. If both means are at most the bound, the step appends
  entries, all with the reason of a zero-angle run, and every position of the run whose
  record index is not deleted and not in \<open>probs\<close>, and whose record has a non-empty image
  name that resolves to an existing file, has such an entry among them.
\<close>

theorem zero_run_flagging:
  assumes "seq \<in> set (get_zero_angle_sequences recs)" "int (length seq) > maxz"
  shows
   "(avg e (pre_seq_angles recs (hd seq)) > float_0_1 \<or> avg e (post_seq_angles recs (last seq)) > float_0_1 \<longrightarrow>
       process_sequence e tub recs D maxz seq probs = Inr probs) \<and>
    (avg e (pre_seq_angles recs (hd seq)) \<le> float_0_1 \<and> avg e (post_seq_angles recs (last seq)) \<le> float_0_1 \<longrightarrow>
       (\<exists>added. process_sequence e tub recs D maxz seq probs = Inr (probs @ added) \<and>
          (\<forall>x \<in> set added. snd (snd x) = ZeroAngleSequence) \<and>
          (\<forall>pos \<in> set seq.
             r_index (recs ! pos) \<notin> D \<and> r_index (recs ! pos) \<notin> fst ` set probs \<and>
             resolved_image e tub (recs ! pos) \<noteq> None \<longrightarrow>
             (\<exists>p. (r_index (recs ! pos), p, ZeroAngleSequence) \<in> set added))))"
proof (intro conjI impI)
  from assms(1) have rg: "in_range recs seq"
    using get_zero_angle_sequences_range by blast
  then have ne: "seq \<noteq> []" and lt: "\<forall>pos \<in> set seq. pos < length recs"
    by (auto simp: in_range_def)
  {
    assume "avg e (pre_seq_angles recs (hd seq)) > float_0_1 \<or> avg e (post_seq_angles recs (last seq)) > float_0_1"
    then have "\<not> run_flagged e recs maxz seq"
      by (auto simp: run_flagged_def)
    then show "process_sequence e tub recs D maxz seq probs = Inr probs"
      using ne by (rule process_sequence_suppressed [rotated])
  next
    assume "avg e (pre_seq_angles recs (hd seq)) \<le> float_0_1 \<and> avg e (post_seq_angles recs (last seq)) \<le> float_0_1"
    with assms(2) have fl: "run_flagged e recs maxz seq"
      by (simp add: run_flagged_def)
    from flag_sequence_result [OF lt, of e tub D probs] obtain added where
      a: "flag_sequence e tub recs D seq probs = Inr (probs @ added)"
        "\<forall>x \<in> set added. zero_entry e tub recs D seq x \<and> fst x \<notin> fst ` set probs"
        "covered e tub recs D seq (probs @ added)"
      by blast
    have "\<exists>p. (r_index (recs ! pos), p, ZeroAngleSequence) \<in> set added"
      if "pos \<in> set seq" "r_index (recs ! pos) \<notin> D" "r_index (recs ! pos) \<notin> fst ` set probs"
        "resolved_image e tub (recs ! pos) \<noteq> None" for pos
    proof -
      from a(3) that have "r_index (recs ! pos) \<in> fst ` set (probs @ added)"
        by (simp add: covered_def)
      with that(3) obtain x where x: "x \<in> set added" "fst x = r_index (recs ! pos)"
        by auto
      with a(2) have "snd (snd x) = ZeroAngleSequence"
        by (simp add: zero_entry_def)
      with x have "(r_index (recs ! pos), fst (snd x), ZeroAngleSequence) \<in> set added"
        by (metis prod.collapse)
      then show ?thesis ..
    qed
    moreover have "\<forall>x \<in> set added. snd (snd x) = ZeroAngleSequence"
      using a(2) by (simp add: zero_entry_def)
    ultimately show "\<exists>added. process_sequence e tub recs D maxz seq probs = Inr (probs @ added) \<and>
          (\<forall>x \<in> set added. snd (snd x) = ZeroAngleSequence) \<and>
          (\<forall>pos \<in> set seq.
             r_index (recs ! pos) \<notin> D \<and> r_index (recs ! pos) \<notin> fst ` set probs \<and>
             resolved_image e tub (recs ! pos) \<noteq> None \<longrightarrow>
             (\<exists>p. (r_index (recs ! pos), p, ZeroAngleSequence) \<in> set added))"
      using a(1) fl ne by (intro exI [of _ added]) (simp add: process_sequence_flagged)
  }
qed

theorem zero_run_flagging_witness:
  "[0, 1, 2] \<in> set (get_zero_angle_sequences run_records) \<and> int (length [0::nat, 1, 2]) > 2 \<and>
   avg (bright_world 100) (pre_seq_angles run_records 0) \<le> float_0_1 \<and> avg (bright_world 100) (post_seq_angles run_records 2) \<le> float_0_1 \<and>
   process_sequence (bright_world 100) ''tub'' run_records {} 2 [0, 1, 2] []
     = Inr [(0, ''tub/0.jpg'', ZeroAngleSequence), (1, ''tub/1.jpg'', ZeroAngleSequence),
            (2, ''tub/2.jpg'', ZeroAngleSequence)] \<and>
   [1, 2, 3] \<in> set (get_zero_angle_sequences (tub_record 9 ''9.jpg'' 0.5 # run_records)) \<and>
   avg (bright_world 100) (pre_seq_angles (tub_record 9 ''9.jpg'' 0.5 # run_records) 1) > float_0_1 \<and>
   process_sequence (bright_world 100) ''tub'' (tub_record 9 ''9.jpg'' 0.5 # run_records) {} 2
     [1, 2, 3] [] = Inr []"
proof -
  have s: "[0, 1, 2] \<in> set (get_zero_angle_sequences run_records)"
    "[1, 2, 3] \<in> set (get_zero_angle_sequences (tub_record 9 ''9.jpg'' 0.5 # run_records))"
    by code_simp+
  have l: "int (length [0::nat, 1, 2]) > 2" "int (length [1::nat, 2, 3]) > 2" by simp_all
  have m: "avg (bright_world 100) (pre_seq_angles run_records 0) \<le> float_0_1" "avg (bright_world 100) (post_seq_angles run_records 2) \<le> float_0_1"
    "avg (bright_world 100) (pre_seq_angles (tub_record 9 ''9.jpg'' 0.5 # run_records) 1) > float_0_1"
    by code_simp+
  have v: "process_sequence (bright_world 100) ''tub'' run_records {} 2 [0, 1, 2] []
     = Inr [(0, ''tub/0.jpg'', ZeroAngleSequence), (1, ''tub/1.jpg'', ZeroAngleSequence),
            (2, ''tub/2.jpg'', ZeroAngleSequence)]"
    by code_simp
  from zero_run_flagging [OF s(2) l(2), of "bright_world 100" "''tub''" "{}" "[]"] m(3)
  have "process_sequence (bright_world 100) ''tub'' (tub_record 9 ''9.jpg'' 0.5 # run_records) {} 2
     [1, 2, 3] [] = Inr []"
    by simp
  with zero_run_flagging [OF s(1) l(1), of "bright_world 100" "''tub''" "{}" "[]"] s l m v
  show ?thesis by simp
qed

section \<open>The exit status\<close>

lemma tub_world_exit:
  "exit_status (tub_world NoImage) (Parsed (tub_args False)) = 0"
  "exit_status (tub_world (GrayMean 100)) (Parsed (tub_args False)) = 0"
  by code_simp+

text \<open>
  Claim C9 as stated fails. The exit status does not tell a run that found problems
  from a clean run: on the example store the run that reports the problem of record 2
  and the run that finds nothing both end with status 0.
\<close>

theorem exit_status_counterexample:
  "exit_status (tub_world NoImage) (Parsed (tub_args False))
     = exit_status (tub_world (GrayMean 100)) (Parsed (tub_args False)) \<and>
   fst (projr (main (tub_world NoImage) (Parsed (tub_args False)))) =
     [AlreadyDeletedCount 1, CannotParseRecord (''bad'' @ [nl]), TotalRecords 3, FoundProblems 1,
      ProblemLine 2 ''tub/images/2.jpg'' (BrightnessAbnormal 0)] \<and>
   fst (projr (main (tub_world (GrayMean 100)) (Parsed (tub_args False)))) =
     [AlreadyDeletedCount 1, CannotParseRecord (''bad'' @ [nl]), TotalRecords 3, NoProblemsFound]"
  by code_simp

text \<open>
  Claim C9, amended. Every invocation that runs to completion, that is, in which \<open>main\<close>
  returns, ends with exit status 0: whatever it printed, whether or not it reported
  problems, and whether or not \<open>remove\<close> was requested and the manifest rewritten. The
  status of a run that found problems is therefore the status of a clean run. Nothing is
  said about the runs that an exception or docopt ends.
\<close>

theorem returned_run_exits_zero:
  "main e cmd = Inr (out, e') \<Longrightarrow> exit_status e cmd = 0"
  by (simp add: exit_status_def)

lemma tub_world_commit_main:
  "\<not> isl (main (tub_world NoImage) (Parsed (tub_args True)))"
  "fst (projr (main (tub_world NoImage) (Parsed (tub_args True)))) =
     [AlreadyDeletedCount 1, CannotParseRecord (''bad'' @ [nl]), TotalRecords 3, FoundProblems 1,
      ProblemLine 2 ''tub/images/2.jpg'' (BrightnessAbnormal 0), AddedToDeleted 1]"
  by code_simp+

theorem returned_run_exits_zero_witness:
  "fst (projr (main (tub_world NoImage) (Parsed (tub_args True)))) =
     [AlreadyDeletedCount 1, CannotParseRecord (''bad'' @ [nl]), TotalRecords 3, FoundProblems 1,
      ProblemLine 2 ''tub/images/2.jpg'' (BrightnessAbnormal 0), AddedToDeleted 1] \<and>
   exit_status (tub_world NoImage) (Parsed (tub_args True)) = 0"
proof -
  obtain out e' where r: "main (tub_world NoImage) (Parsed (tub_args True)) = Inr (out, e')"
    using tub_world_commit_main(1)
    by (cases "main (tub_world NoImage) (Parsed (tub_args True))") auto
  from returned_run_exits_zero [OF r] tub_world_commit_main(2) show ?thesis
    by simp
qed

section \<open>Integers as text\<close>

lemma digit_char_all:
  "\<forall>n \<in> set [0..<10]. is_digit (digit_char n) \<and> digit_val (digit_char n) = n"
  by (simp add: upt_rec is_digit_def digit_char_def digit_val_def)

lemma digit_char_props:
  assumes "n < 10"
  shows "is_digit (digit_char n)" "digit_val (digit_char n) = n"
  using assms digit_char_all by simp_all

lemma is_digit_not_special:
  assumes "is_digit c"
  shows "\<not> is_space c" "c \<noteq> CHR '',''" "c \<noteq> nl" "c \<noteq> CHR '']''" "c \<noteq> CHR ''-''"
    "c \<noteq> CHR ''+''" "c \<noteq> CHR ''_''"
  using assms by (auto simp: is_digit_def is_space_def nl_def)

lemma nat_str_digits: "\<forall>c \<in> set (nat_str n). is_digit c"
proof (induction n rule: nat_str.induct)
  case (1 n)
  show ?case
  proof (cases "n < 10")
    case True
    then show ?thesis by (simp add: nat_str.simps [of n] digit_char_props)
  next
    case False
    with 1 show ?thesis by (simp add: nat_str.simps [of n] digit_char_props)
  qed
qed

lemma nat_str_nonempty: "nat_str n \<noteq> []"
  by (simp add: nat_str.simps [of n])

lemma digits_value_digits:
  "\<forall>c \<in> set ds. is_digit c \<Longrightarrow>
   digits_value acc ds = Some (foldl (\<lambda>a c. 10 * a + digit_val c) acc ds)"
  by (induction ds arbitrary: acc) auto

lemma foldl_nat_str: "foldl (\<lambda>a c. 10 * a + digit_val c) 0 (nat_str n) = n"
proof (induction n rule: nat_str.induct)
  case (1 n)
  show ?case
  proof (cases "n < 10")
    case True
    then have "nat_str n = [digit_char n]"
      by (simp add: nat_str.simps [of n])
    with True show ?thesis
      by (simp add: digit_char_props)
  next
    case False
    then have s: "nat_str n = nat_str (n div 10) @ [digit_char (n mod 10)]"
      by (simp add: nat_str.simps [of n])
    have m: "digit_val (digit_char (n mod 10)) = n mod 10"
      by (rule digit_char_props) simp
    from False 1 have "foldl (\<lambda>a c. 10 * a + digit_val c) 0 (nat_str (n div 10)) = n div 10"
      by simp
    then have "foldl (\<lambda>a c. 10 * a + digit_val c) 0 (nat_str n) = 10 * (n div 10) + n mod 10"
      by (simp only: s foldl_append foldl.simps m)
    then show ?thesis by simp
  qed
qed

lemma py_nat_nat_str: "py_nat (nat_str n) = Some n"
proof -
  obtain c cs where s: "nat_str n = c # cs"
    using nat_str_nonempty [of n] by (cases "nat_str n") auto
  with nat_str_digits [of n] have "is_digit c" by simp
  with s show ?thesis
    using digits_value_digits [OF nat_str_digits, of 0 n] foldl_nat_str [of n]
    by (simp add: py_nat_def)
qed

lemma int_str_chars: "\<forall>c \<in> set (int_str i). is_digit c \<or> c = CHR ''-''"
  using nat_str_digits by (auto simp: int_str_def)

lemma int_str_nonempty: "int_str i \<noteq> []"
  by (simp add: int_str_def nat_str_nonempty)

lemma strip_no_space:
  assumes "\<forall>c \<in> set s. \<not> is_space c"
  shows "strip s = s"
proof -
  have d: "dropWhile is_space t = t" if "\<forall>c \<in> set t. \<not> is_space c" for t
    using that by (cases t) auto
  show ?thesis
    using assms by (simp add: strip_def d)
qed

lemma strip_leading_space:
  assumes "\<forall>c \<in> set s. \<not> is_space c"
  shows "strip (CHR '' '' # s) = s"
proof -
  have d: "dropWhile is_space t = t" if "\<forall>c \<in> set t. \<not> is_space c" for t
    using that by (cases t) auto
  have "is_space CHR '' ''" by (simp add: is_space_def)
  then show ?thesis
    using assms by (simp add: strip_def d)
qed

lemma int_str_no_space: "\<forall>c \<in> set (int_str i). \<not> is_space c"
  using int_str_chars [of i] is_digit_not_special(1) by (auto simp: is_space_def)

lemma py_int_int_str: "py_int (int_str i) = Some i"
proof (cases "i < 0")
  case True
  then show ?thesis
    using strip_no_space [OF int_str_no_space, of i]
    by (simp add: py_int_def int_str_def py_nat_nat_str)
next
  case False
  obtain c cs where s: "nat_str (nat i) = c # cs"
    using nat_str_nonempty [of "nat i"] by (cases "nat_str (nat i)") auto
  with nat_str_digits [of "nat i"] have "is_digit c" by simp
  then have "c \<noteq> CHR ''-''" "c \<noteq> CHR ''+''"
    using is_digit_not_special by blast+
  with False s show ?thesis
    using strip_no_space [OF int_str_no_space, of i] py_nat_nat_str [of "nat i"]
    by (simp add: py_int_def int_str_def)
qed

section \<open>Splitting\<close>

lemma split_on_no_sep: "sep \<notin> set u \<Longrightarrow> split_on sep u = [u]"
  by (induction u) auto

lemma split_on_nonempty: "split_on sep s \<noteq> []"
  by (induction s) (auto split: list.splits)

lemma split_on_append_sep:
  "sep \<notin> set u \<Longrightarrow> split_on sep (u @ sep # s) = u # split_on sep s"
  by (induction u) auto

lemma split_on_join_comma:
  assumes "\<forall>x \<in> set (x0 # xs). CHR '','' \<notin> set x"
  shows "split_on CHR '','' (join_comma (x0 # xs)) = x0 # map (\<lambda>x. CHR '' '' # x) xs"
  using assms
proof (induction xs arbitrary: x0)
  case Nil
  then show ?case by (simp add: split_on_no_sep)
next
  case (Cons y ys)
  have "split_on CHR '','' (x0 @ CHR '','' # (CHR '' '' # join_comma (y # ys)))
      = x0 # split_on CHR '','' (CHR '' '' # join_comma (y # ys))"
    using Cons.prems by (intro split_on_append_sep) simp
  moreover have "split_on CHR '','' (join_comma (y # ys)) = y # map (\<lambda>x. CHR '' '' # x) ys"
    using Cons.prems by (intro Cons.IH) simp
  ultimately show ?case by simp
qed

lemma parse_indexes_spaced:
  "parse_indexes (map (\<lambda>x. CHR '' '' # x) (map int_str xs)) = Inr (set xs)"
  by (induction xs) (simp_all add: strip_leading_space [OF int_str_no_space] py_int_int_str)

lemma int_str_no_comma: "CHR '','' \<notin> set (int_str i)"
  using int_str_chars [of i] is_digit_not_special(2) by auto

lemma join_comma_chars:
  "c \<in> set (join_comma xs) \<Longrightarrow> (\<exists>x \<in> set xs. c \<in> set x) \<or> c = CHR '','' \<or> c = CHR '' ''"
  by (induction xs rule: join_comma.induct) auto

lemma dumps_body_chars:
  assumes "c \<in> set (dumps_body xs)"
  shows "is_digit c \<or> c = CHR ''-'' \<or> c = CHR '','' \<or> c = CHR '' ''"
proof -
  from join_comma_chars [of c "map int_str xs"] assms
  consider x where "x \<in> set xs" "c \<in> set (int_str x)" | "c = CHR '',''" | "c = CHR '' ''"
    by (auto simp: dumps_body_def)
  then show ?thesis
    using int_str_chars by cases blast+
qed

lemma dumps_body_clean: "nl \<notin> set (dumps_body xs)" "CHR '']'' \<notin> set (dumps_body xs)"
  using dumps_body_chars [of nl xs] dumps_body_chars [of "CHR '']''" xs] is_digit_not_special(3,4)
  by (auto simp: nl_def)

lemma strip_ends:
  assumes "s \<noteq> []" "\<not> is_space (hd s)" "\<not> is_space (last s)"
  shows "strip s = s"
proof -
  from assms have "dropWhile is_space s = s" by (cases s) auto
  moreover from assms have "dropWhile is_space (rev s) = rev s"
    by (cases "rev s") (auto simp: last_rev [symmetric] hd_rev)
  ultimately show ?thesis by (simp add: strip_def)
qed

lemma join_comma_ends:
  assumes "\<forall>x \<in> set (x0 # xs). x \<noteq> []"
  shows "join_comma (x0 # xs) \<noteq> [] \<and> hd (join_comma (x0 # xs)) = hd x0 \<and>
         last (join_comma (x0 # xs)) = last (last (x0 # xs))"
  using assms by (induction xs arbitrary: x0) auto

lemma parse_body_dumps: "parse_body (dumps_body xs) = Inr (set xs)"
proof (cases xs)
  case Nil
  then show ?thesis by (simp add: parse_body_def dumps_body_def strip_def)
next
  case (Cons x0 rest)
  let ?strs = "map int_str (x0 # rest)"
  have ne: "\<forall>x \<in> set ?strs. x \<noteq> []"
    using int_str_nonempty by auto
  then have e: "join_comma ?strs \<noteq> []" "hd (join_comma ?strs) = hd (int_str x0)"
    "last (join_comma ?strs) = last (last ?strs)"
    using join_comma_ends [of "int_str x0" "map int_str rest"] by simp_all
  have "hd (int_str x0) \<in> set (int_str x0)"
    using int_str_nonempty by simp
  then have h: "\<not> is_space (hd (join_comma ?strs))"
    using int_str_no_space e(2) by metis
  have "last ?strs \<in> set ?strs" by (rule last_in_set) simp
  then obtain y where y: "last ?strs = int_str y" by auto
  then have "last (int_str y) \<in> set (int_str y)"
    using int_str_nonempty by simp
  then have l: "\<not> is_space (last (join_comma ?strs))"
    using int_str_no_space e(3) y by metis
  have s: "strip (join_comma ?strs) = join_comma ?strs"
    using e(1) h l by (rule strip_ends)
  have sp: "split_on CHR '','' (join_comma ?strs) = int_str x0 # map (\<lambda>x. CHR '' '' # x) (map int_str rest)"
    using split_on_join_comma [of "int_str x0" "map int_str rest"] int_str_no_comma by auto
  have "parse_indexes (int_str x0 # map (\<lambda>x. CHR '' '' # x) (map int_str rest))
      = Inr (insert x0 (set rest))"
    using parse_indexes_spaced [of rest] strip_no_space [OF int_str_no_space, of x0]
    by (simp add: py_int_int_str)
  with s sp e(1) Cons show ?thesis
    by (simp add: parse_body_def dumps_body_def)
qed

lemma parse_indexes_finite: "parse_indexes xs = Inr S \<Longrightarrow> finite S"
  by (induction xs arbitrary: S) (auto split: option.splits sum.splits)

lemma parse_body_finite: "parse_body m = Inr S \<Longrightarrow> finite S"
  by (auto simp: parse_body_def Let_def split: if_splits dest: parse_indexes_finite)

lemma parse_field_body:
  "parse_field line = (case re_search line of None \<Rightarrow> Inr {} | Some m \<Rightarrow> parse_body m)"
  by (simp add: parse_field_def parse_body_def Let_def split: option.splits)

section \<open>The pattern\<close>

lemma PAT_props:
  "length PAT = 20" "nl \<notin> set PAT" "CHR '']'' \<notin> set PAT" "prefix KEY PAT" "PAT \<noteq> []"
  "length KEY = 18" "nl \<notin> set KEY" "hd PAT = CHR 0x22" "KEY \<noteq> []"
  by (simp_all add: PAT_def KEY_def nl_def)

lemma prefix_PAT_KEY: "prefix PAT s \<Longrightarrow> prefix KEY s"
  using PAT_props(4) prefix_order.trans by blast

lemma lazy_body_append:
  "nl \<notin> set u \<Longrightarrow> CHR '']'' \<notin> set u \<Longrightarrow>
   lazy_body (u @ s) = map_option (\<lambda>(body, rest). (u @ body, rest)) (lazy_body s)"
  by (induction u) (auto simp: option.map_comp comp_def split_def option.map_ident)

lemma lazy_body_match:
  "nl \<notin> set b \<Longrightarrow> CHR '']'' \<notin> set b \<Longrightarrow> lazy_body (b @ CHR '']'' # r) = Some (b, r)"
  by (simp add: lazy_body_append)

lemma lazy_body_Some:
  "lazy_body s = Some (b, r) \<Longrightarrow> s = b @ CHR '']'' # r \<and> nl \<notin> set b \<and> CHR '']'' \<notin> set b"
  by (induction s arbitrary: b) (auto split: if_splits)

lemma match_here_match:
  "nl \<notin> set b \<Longrightarrow> CHR '']'' \<notin> set b \<Longrightarrow> match_here (PAT @ b @ CHR '']'' # r) = Some (b, r)"
  by (simp add: match_here_def lazy_body_match)

lemma match_here_Some:
  assumes "match_here s = Some (b, r)"
  shows "s = PAT @ b @ CHR '']'' # r \<and> nl \<notin> set b \<and> CHR '']'' \<notin> set b"
proof -
  from assms have p: "prefix PAT s" and l: "lazy_body (drop (length PAT) s) = Some (b, r)"
    by (auto simp: match_here_def split: if_splits)
  from p have "s = PAT @ drop (length PAT) s"
    by (metis append_eq_conv_conj prefixE)
  with lazy_body_Some [OF l] show ?thesis by simp
qed

lemma match_here_prefix: "match_here s \<noteq> None \<Longrightarrow> prefix KEY s"
  by (auto simp: match_here_def prefix_PAT_KEY split: if_splits)

lemma match_here_extend:
  assumes "match_here s = Some (b, r)"
  shows "match_here (s @ t) = Some (b, r @ t)"
proof -
  from match_here_Some [OF assms] have s: "s = PAT @ b @ CHR '']'' # r"
    and c: "nl \<notin> set b" "CHR '']'' \<notin> set b" by auto
  have "s @ t = PAT @ b @ CHR '']'' # (r @ t)"
    by (subst s) simp
  then show ?thesis
    using match_here_match [OF c, of "r @ t"] by simp
qed

lemma match_here_first_line:
  assumes "match_here s = None"
  shows "match_here (takeWhile (\<lambda>x. x \<noteq> nl) s) = None"
proof (rule ccontr)
  assume "match_here (takeWhile (\<lambda>x. x \<noteq> nl) s) \<noteq> None"
  then obtain b r where "match_here (takeWhile (\<lambda>x. x \<noteq> nl) s) = Some (b, r)"
    by auto
  from match_here_extend [OF this, of "dropWhile (\<lambda>x. x \<noteq> nl) s"] assms show False
    by simp
qed

section \<open>Substitution\<close>

lemma re_sub_Nil [simp]: "re_sub R [] = []"
  by (simp add: re_sub.simps [of R "[]"] match_here_def PAT_props)

lemma re_sub_match: "match_here s = Some (b, r) \<Longrightarrow> re_sub R s = R @ re_sub R r"
  by (simp add: re_sub.simps [of R s])

lemma re_sub_skip: "match_here (c # cs) = None \<Longrightarrow> re_sub R (c # cs) = c # re_sub R cs"
  by (simp add: re_sub.simps [of R "c # cs"])

lemma re_search_None: "re_search s = None \<Longrightarrow> re_sub R s = s"
  by (induction s) (auto simp: re_sub_skip split: option.splits)

lemma re_search_sublist: "re_search s = Some b \<Longrightarrow> sublist KEY s"
proof (induction s)
  case Nil
  then show ?case by (simp add: match_here_def PAT_props)
next
  case (Cons c cs)
  show ?case
  proof (cases "match_here (c # cs)")
    case None
    with Cons show ?thesis by (auto simp: sublist_Cons_right)
  next
    case (Some m)
    then have "prefix KEY (c # cs)"
      using match_here_prefix by auto
    then show ?thesis by (simp add: sublist_Cons_right PAT_props)
  qed
qed

text \<open>A replacement of the form the script writes.\<close>

lemma replacement_text_eq:
  "replacement_text S = PAT @ dumps_body (sorted_list_of_set S) @ '']''"
  by (simp add: replacement_text_def PAT_def json_dumps_def dumps_body_def)

lemma re_sub_induct [case_names Nil match skip]:
  assumes "P []"
    and "\<And>s b r. match_here s = Some (b, r) \<Longrightarrow> P r \<Longrightarrow> P s"
    and "\<And>c cs. match_here (c # cs) = None \<Longrightarrow> P cs \<Longrightarrow> P (c # cs)"
  shows "P s"
proof (induction s rule: length_induct)
  case (1 s)
  show ?case
  proof (cases "match_here s")
    case (Some m)
    obtain b r where m: "m = (b, r)" by (cases m)
    with Some have "length r < length s"
      using match_here_length by simp
    with 1 have "P r" by simp
    with Some m assms(2) show ?thesis by simp
  next
    case None
    show ?thesis
    proof (cases s)
      case Nil
      with assms(1) show ?thesis by simp
    next
      case (Cons c cs)
      with 1 have "P cs" by simp
      with None Cons assms(3) show ?thesis by simp
    qed
  qed
qed

lemma take_re_sub:
  assumes "prefix PAT R"
  shows "take 20 (re_sub R s) = take 20 s"
proof (induction s rule: re_sub_induct)
  case Nil
  show ?case by simp
next
  case (match s b r)
  from assms obtain R' where R: "R = PAT @ R'"
    by (auto simp: prefix_def)
  from match_here_Some [OF match(1)] have "s = PAT @ b @ CHR '']'' # r" by simp
  then have "take 20 s = PAT"
    using PAT_props(1) by (metis append_eq_conv_conj)
  moreover have "take 20 (re_sub R s) = PAT"
    using PAT_props(1) by (simp add: re_sub_match [OF match(1)] R)
  ultimately show ?case by simp
next
  case (skip c cs)
  have "take 19 (re_sub R cs) = take 19 (take 20 (re_sub R cs))"
    by simp
  also have "\<dots> = take 19 (take 20 cs)"
    by (simp only: skip(2))
  also have "\<dots> = take 19 cs"
    by simp
  finally show ?case
    by (simp add: re_sub_skip [OF skip(1)] take_Cons')
qed

lemma prefix_take_iff:
  assumes "length u \<le> n"
  shows "prefix u (take n x) \<longleftrightarrow> prefix u x"
proof
  assume "prefix u (take n x)"
  then show "prefix u x"
    using take_is_prefix [of n x] by (rule prefix_order.trans)
next
  assume "prefix u x"
  then obtain z where "x = u @ z" by (auto simp: prefix_def)
  with assms have "take n x = u @ take (n - length u) z" by simp
  then show "prefix u (take n x)" by simp
qed

lemma prefix_re_sub:
  assumes "prefix PAT R"
  shows "prefix KEY (re_sub R s) \<longleftrightarrow> prefix KEY s" "prefix PAT (re_sub R s) \<longleftrightarrow> prefix PAT s"
proof -
  have "prefix KEY (re_sub R s) \<longleftrightarrow> prefix KEY (take 20 (re_sub R s))"
    by (rule prefix_take_iff [symmetric]) (simp add: PAT_props)
  also have "\<dots> \<longleftrightarrow> prefix KEY (take 20 s)"
    by (simp only: take_re_sub [OF assms])
  also have "\<dots> \<longleftrightarrow> prefix KEY s"
    by (rule prefix_take_iff) (simp add: PAT_props)
  finally show "prefix KEY (re_sub R s) \<longleftrightarrow> prefix KEY s" .
  have "prefix PAT (re_sub R s) \<longleftrightarrow> prefix PAT (take 20 (re_sub R s))"
    by (rule prefix_take_iff [symmetric]) (simp add: PAT_props)
  also have "\<dots> \<longleftrightarrow> prefix PAT (take 20 s)"
    by (simp only: take_re_sub [OF assms])
  also have "\<dots> \<longleftrightarrow> prefix PAT s"
    by (rule prefix_take_iff) (simp add: PAT_props)
  finally show "prefix PAT (re_sub R s) \<longleftrightarrow> prefix PAT s" .
qed

lemma lazy_body_re_sub: "lazy_body s = None \<Longrightarrow> lazy_body (re_sub R s) = None"
proof (induction s rule: re_sub_induct)
  case Nil
  then show ?case by simp
next
  case (match s b r)
  from match_here_Some [OF match(1)] have s: "s = (PAT @ b) @ CHR '']'' # r"
    and c: "nl \<notin> set (PAT @ b)" "CHR '']'' \<notin> set (PAT @ b)"
    using PAT_props by auto
  from lazy_body_match [OF c, of r] s match(3) show ?case by simp
next
  case (skip c cs)
  then show ?case
    by (auto simp: re_sub_skip split: if_splits)
qed

lemma match_here_None_iff:
  "match_here s = None \<longleftrightarrow> \<not> prefix PAT s \<or> lazy_body s = None"
proof (cases "prefix PAT s")
  case False
  then show ?thesis by (simp add: match_here_def)
next
  case True
  then have "s = PAT @ drop (length PAT) s"
    by (metis append_eq_conv_conj prefixE)
  then have "lazy_body s = map_option (\<lambda>(body, rest). (PAT @ body, rest)) (lazy_body (drop (length PAT) s))"
    using lazy_body_append [of PAT "drop (length PAT) s"] PAT_props by simp
  with True show ?thesis by (simp add: match_here_def)
qed

lemma match_here_re_sub_skip:
  assumes "prefix PAT R" "match_here (c # cs) = None"
  shows "match_here (c # re_sub R cs) = None"
proof -
  have e: "re_sub R (c # cs) = c # re_sub R cs"
    using assms(2) by (rule re_sub_skip)
  from assms(2) have "\<not> prefix PAT (c # cs) \<or> lazy_body (c # cs) = None"
    by (simp only: match_here_None_iff)
  then consider "\<not> prefix PAT (c # cs)" | "lazy_body (c # cs) = None"
    by fast
  then have "\<not> prefix PAT (re_sub R (c # cs)) \<or> lazy_body (re_sub R (c # cs)) = None"
  proof cases
    case 1
    then show ?thesis
      by (simp only: prefix_re_sub(2) [OF assms(1)]) simp
  next
    case 2
    then have "lazy_body (re_sub R (c # cs)) = None"
      by (rule lazy_body_re_sub)
    then show ?thesis ..
  qed
  then have "match_here (re_sub R (c # cs)) = None"
    by (simp only: match_here_None_iff)
  then show ?thesis
    by (simp only: e)
qed

lemma re_search_match: "match_here s = Some (b, r) \<Longrightarrow> re_search s = Some b"
  by (cases s) simp_all

text \<open>From here on the replacement has the shape the script writes.\<close>

lemma re_sub_idem:
  assumes "nl \<notin> set nums" "CHR '']'' \<notin> set nums"
  shows "re_sub (PAT @ nums @ '']'') (re_sub (PAT @ nums @ '']'') s) = re_sub (PAT @ nums @ '']'') s"
proof (induction s rule: re_sub_induct)
  case Nil
  show ?case by simp
next
  case (match s b r)
  let ?R = "PAT @ nums @ '']''"
  have "match_here (?R @ re_sub ?R r) = Some (nums, re_sub ?R r)"
    using match_here_match [OF assms, of "re_sub ?R r"] by simp
  then have "re_sub ?R (?R @ re_sub ?R r) = ?R @ re_sub ?R (re_sub ?R r)"
    by (rule re_sub_match)
  with match show ?case by (simp add: re_sub_match [OF match(1)])
next
  case (skip c cs)
  let ?R = "PAT @ nums @ '']''"
  have "match_here (c # re_sub ?R cs) = None"
    using skip(1) by (intro match_here_re_sub_skip) simp_all
  then have "re_sub ?R (c # re_sub ?R cs) = c # re_sub ?R (re_sub ?R cs)"
    by (rule re_sub_skip)
  with skip show ?case by (simp add: re_sub_skip)
qed

lemma re_search_re_sub:
  assumes "nl \<notin> set nums" "CHR '']'' \<notin> set nums" "re_search s = Some b"
  shows "re_search (re_sub (PAT @ nums @ '']'') s) = Some nums"
  using assms(3)
proof (induction s)
  case Nil
  then show ?case by (simp add: match_here_def PAT_props)
next
  case (Cons c cs)
  let ?R = "PAT @ nums @ '']''"
  show ?case
  proof (cases "match_here (c # cs)")
    case (Some m)
    obtain b' r where m: "m = (b', r)" by (cases m)
    have "match_here (?R @ re_sub ?R r) = Some (nums, re_sub ?R r)"
      using match_here_match [OF assms(1,2), of "re_sub ?R r"] by simp
    then have "re_search (?R @ re_sub ?R r) = Some nums"
      by (rule re_search_match)
    with Some m show ?thesis by (simp add: re_sub_match)
  next
    case None
    with Cons.prems have "re_search cs = Some b" by simp
    then have "re_search (re_sub ?R cs) = Some nums" by (rule Cons.IH)
    moreover have "match_here (c # re_sub ?R cs) = None"
      using None by (intro match_here_re_sub_skip) simp_all
    ultimately show ?thesis
      using None by (simp add: re_sub_skip)
  qed
qed

lemma first_line_re_sub:
  assumes "nl \<notin> set R"
  shows "takeWhile (\<lambda>x. x \<noteq> nl) (re_sub R s) = re_sub R (takeWhile (\<lambda>x. x \<noteq> nl) s)"
proof (induction s rule: re_sub_induct)
  case Nil
  show ?case by simp
next
  case (match s b r)
  let ?M = "PAT @ b @ '']''"
  from match_here_Some [OF match(1)] have s: "s = ?M @ r"
    and c: "nl \<notin> set b" "CHR '']'' \<notin> set b" by auto
  have m: "\<forall>x \<in> set ?M. x \<noteq> nl"
    using c PAT_props by (auto simp: nl_def)
  have t: "takeWhile (\<lambda>x. x \<noteq> nl) s = ?M @ takeWhile (\<lambda>x. x \<noteq> nl) r"
    by (subst s) (simp only: takeWhile_append2 [OF m [rule_format]])
  have "match_here (?M @ takeWhile (\<lambda>x. x \<noteq> nl) r) = Some (b, takeWhile (\<lambda>x. x \<noteq> nl) r)"
    using match_here_match [OF c] by simp
  then have "re_sub R (takeWhile (\<lambda>x. x \<noteq> nl) s) = R @ re_sub R (takeWhile (\<lambda>x. x \<noteq> nl) r)"
    by (simp add: t re_sub_match)
  moreover have "takeWhile (\<lambda>x. x \<noteq> nl) (R @ re_sub R r) = R @ takeWhile (\<lambda>x. x \<noteq> nl) (re_sub R r)"
    using assms by (intro takeWhile_append2) auto
  ultimately show ?case
    using match(2) by (simp add: re_sub_match [OF match(1)])
next
  case (skip c cs)
  show ?case
  proof (cases "c = nl")
    case True
    have "re_sub R (c # cs) = c # re_sub R cs"
      using skip(1) by (rule re_sub_skip)
    with True show ?thesis by simp
  next
    case False
    from match_here_first_line [OF skip(1)] False
    have "match_here (c # takeWhile (\<lambda>x. x \<noteq> nl) cs) = None" by simp
    then have "re_sub R (c # takeWhile (\<lambda>x. x \<noteq> nl) cs) = c # re_sub R (takeWhile (\<lambda>x. x \<noteq> nl) cs)"
      by (rule re_sub_skip)
    with False skip(2) show ?thesis
      by (simp add: re_sub_skip [OF skip(1)])
  qed
qed

lemma field_line_re_sub:
  assumes "prefix PAT R" "nl \<notin> set R"
  shows "field_line (re_sub R s) = map_option (re_sub R) (field_line s)"
proof (induction s rule: re_sub_induct)
  case Nil
  show ?case by simp
next
  case (match s b r)
  then have k: "prefix KEY s"
    using match_here_prefix by simp
  then have k': "prefix KEY (re_sub R s)"
    using prefix_re_sub(1) [OF assms(1)] by simp
  from k have "s \<noteq> []" using PAT_props by auto
  then obtain c cs where s: "s = c # cs" by (cases s) auto
  from k' have "re_sub R s \<noteq> []" using PAT_props by auto
  then obtain d ds where d: "re_sub R s = d # ds" by (cases "re_sub R s") auto
  have "field_line (re_sub R s) = Some (takeWhile (\<lambda>x. x \<noteq> nl) (re_sub R s))"
    using k' d by simp
  moreover have "field_line s = Some (takeWhile (\<lambda>x. x \<noteq> nl) s)"
    using k s by simp
  ultimately show ?case
    by (simp add: first_line_re_sub [OF assms(2)])
next
  case (skip c cs)
  have e: "re_sub R (c # cs) = c # re_sub R cs"
    using skip(1) by (rule re_sub_skip)
  show ?case
  proof (cases "prefix KEY (c # cs)")
    case True
    then have "prefix KEY (c # re_sub R cs)"
      using prefix_re_sub(1) [OF assms(1), of "c # cs"] e by simp
    with True show ?thesis
      using first_line_re_sub [OF assms(2), of "c # cs"] e by simp
  next
    case False
    then have "\<not> prefix KEY (c # re_sub R cs)"
      using prefix_re_sub(1) [OF assms(1), of "c # cs"] e by simp
    with False skip(2) show ?thesis
      by (simp add: e)
  qed
qed

section \<open>Loading the deletion index\<close>

lemma split_on_Cons:
  "c \<noteq> sep \<Longrightarrow> split_on sep (c # cs) = (c # hd (split_on sep cs)) # tl (split_on sep cs)"
  using split_on_nonempty [of sep cs] by (cases "split_on sep cs") auto

lemma hd_split_on: "hd (split_on sep s) = takeWhile (\<lambda>x. x \<noteq> sep) s"
  by (induction s) (auto simp: split_on_nonempty split: list.splits)

lemma split_on_hd_tl: "split_on sep s = takeWhile (\<lambda>x. x \<noteq> sep) s # tl (split_on sep s)"
  using split_on_nonempty [of sep s] hd_split_on [of sep s] by (cases "split_on sep s") auto

lemma prefix_first_line:
  assumes "nl \<notin> set u"
  shows "prefix u (takeWhile (\<lambda>x. x \<noteq> nl) s) \<longleftrightarrow> prefix u s"
proof
  assume "prefix u (takeWhile (\<lambda>x. x \<noteq> nl) s)"
  moreover have "prefix (takeWhile (\<lambda>x. x \<noteq> nl) s) s"
    by (metis prefixI takeWhile_dropWhile_id)
  ultimately show "prefix u s" by (rule prefix_order.trans)
next
  assume "prefix u s"
  then obtain z where "s = u @ z" by (auto simp: prefix_def)
  moreover have "takeWhile (\<lambda>x. x \<noteq> nl) (u @ z) = u @ takeWhile (\<lambda>x. x \<noteq> nl) z"
    using assms by (intro takeWhile_append2) auto
  ultimately show "prefix u (takeWhile (\<lambda>x. x \<noteq> nl) s)" by simp
qed

lemma not_prefix_KEY_nl: "\<not> prefix KEY (nl # cs)"
  by (simp add: KEY_def nl_def)

lemma not_sublist_KEY_Nil: "\<not> sublist KEY []"
  by (simp add: KEY_def)

lemma re_search_skip: "\<not> prefix KEY (c # cs) \<Longrightarrow> re_search (c # cs) = re_search cs"
  using match_here_prefix [of "c # cs"] by (cases "match_here (c # cs)") auto

lemma load_field_line:
  "load_deleted_indexes s = (case field_line s of None \<Rightarrow> Inr {} | Some l \<Rightarrow> parse_field l)"
proof (induction s)
  case Nil
  show ?case by (simp add: load_deleted_indexes_def PAT_props(9))
next
  case (Cons c cs)
  let ?h = "takeWhile (\<lambda>x. x \<noteq> nl) cs"
  let ?t = "tl (split_on nl cs)"
  have cs: "split_on nl cs = ?h # ?t" by (rule split_on_hd_tl)
  show ?case
  proof (cases "c = nl")
    case True
    with Cons show ?thesis
      by (simp add: load_deleted_indexes_def PAT_props(9) not_prefix_KEY_nl)
  next
    case False
    then have "split_on nl (c # cs) = (c # hd (split_on nl cs)) # ?t"
      by (rule split_on_Cons)
    then have sp: "split_on nl (c # cs) = (c # ?h) # ?t"
      by (simp only: hd_split_on)
    have fl: "takeWhile (\<lambda>x. x \<noteq> nl) (c # cs) = c # ?h"
      using False by simp
    show ?thesis
    proof (cases "prefix KEY (c # cs)")
      case True
      then have "prefix KEY (c # ?h)"
        using prefix_first_line [of KEY "c # cs"] PAT_props(7) fl by simp
      then have "sublist KEY (c # ?h)"
        by (simp add: sublist_Cons_right)
      with True sp fl show ?thesis
        by (simp add: load_deleted_indexes_def)
    next
      case nk: False
      then have np: "\<not> prefix KEY (c # ?h)"
        using prefix_first_line [of KEY "c # cs"] PAT_props(7) fl by simp
      then have sl: "sublist KEY (c # ?h) \<longleftrightarrow> sublist KEY ?h"
        by (simp add: sublist_Cons_right)
      have pf: "parse_field (c # ?h) = parse_field ?h"
        using re_search_skip [OF np] by (simp add: parse_field_body)
      have "load_deleted_indexes cs = (if sublist KEY ?h then parse_field ?h else scan_manifest_lines ?t)"
        by (subst load_deleted_indexes_def, subst cs) simp
      moreover have "load_deleted_indexes (c # cs) =
          (if sublist KEY (c # ?h) then parse_field (c # ?h) else scan_manifest_lines ?t)"
        by (subst load_deleted_indexes_def, subst sp) simp
      ultimately have "load_deleted_indexes (c # cs) = load_deleted_indexes cs"
        using sl pf by simp
      with Cons nk show ?thesis by simp
    qed
  qed
qed

lemma replacement_text_props:
  "prefix PAT (replacement_text S)" "nl \<notin> set (replacement_text S)"
  using dumps_body_clean [of "sorted_list_of_set S"] PAT_props
  by (auto simp: replacement_text_eq nl_def)

lemma load_no_field:
  assumes "\<not> has_field s"
  shows "load_deleted_indexes s = Inr {}"
  using assms by (auto simp: load_field_line has_field_def parse_field_body split: option.splits)

lemma has_field_re_sub:
  "has_field (re_sub (replacement_text S) s) \<longleftrightarrow> has_field s"
proof (cases "field_line s")
  case None
  then show ?thesis
    by (simp add: has_field_def field_line_re_sub [OF replacement_text_props])
next
  case (Some l)
  show ?thesis
  proof (cases "re_search l")
    case None
    then have "re_sub (replacement_text S) l = l" by (rule re_search_None)
    with Some None show ?thesis
      by (simp add: has_field_def field_line_re_sub [OF replacement_text_props])
  next
    case (Some b)
    from re_search_re_sub [OF dumps_body_clean Some, of "sorted_list_of_set S"]
    have "re_search (re_sub (replacement_text S) l) \<noteq> None"
      by (simp add: replacement_text_eq)
    with Some \<open>field_line s = Some l\<close> show ?thesis
      by (simp add: has_field_def field_line_re_sub [OF replacement_text_props])
  qed
qed

lemma load_after_commit:
  assumes "has_field s" "finite S"
  shows "load_deleted_indexes (re_sub (replacement_text S) s) = Inr S"
proof -
  from assms(1) obtain l b where l: "field_line s = Some l" "re_search l = Some b"
    by (auto simp: has_field_def split: option.splits)
  from re_search_re_sub [OF dumps_body_clean l(2), of "sorted_list_of_set S"]
  have "re_search (re_sub (replacement_text S) l) = Some (dumps_body (sorted_list_of_set S))"
    by (simp add: replacement_text_eq)
  then have "parse_field (re_sub (replacement_text S) l) = Inr (set (sorted_list_of_set S))"
    by (simp add: parse_field_body parse_body_dumps)
  with l(1) assms(2) show ?thesis
    by (simp add: load_field_line field_line_re_sub [OF replacement_text_props])
qed

lemma re_sub_replacement_idem:
  "re_sub (replacement_text S) (re_sub (replacement_text S) s) = re_sub (replacement_text S) s"
  using re_sub_idem [OF dumps_body_clean, of "sorted_list_of_set S" s]
  by (simp add: replacement_text_eq)

lemma load_finite: "load_deleted_indexes s = Inr D \<Longrightarrow> finite D"
  by (auto simp: load_field_line parse_field_body split: option.splits dest: parse_body_finite)

section \<open>Reading and writing text\<close>

lemma universal_newlines_id: "cr \<notin> set s \<Longrightarrow> universal_newlines s = s"
  by (induction s rule: universal_newlines.induct) auto

lemma universal_newlines_no_cr: "cr \<notin> set (universal_newlines s)"
  by (induction s rule: universal_newlines.induct) (auto simp: cr_def nl_def)

lemma set_re_sub: "set (re_sub R s) \<subseteq> set R \<union> set s"
proof (induction s rule: re_sub_induct)
  case Nil
  show ?case by simp
next
  case (match s b r)
  from match_here_Some [OF match(1)] have "set r \<subseteq> set s" by auto
  with match(2) show ?case
    by (auto simp: re_sub_match [OF match(1)])
next
  case (skip c cs)
  then show ?case
    by (auto simp: re_sub_skip [OF skip(1)])
qed

lemma replacement_text_no_cr: "cr \<notin> set (replacement_text S)"
proof
  assume "cr \<in> set (replacement_text S)"
  then have "cr \<in> set PAT \<or> cr \<in> set (dumps_body (sorted_list_of_set S)) \<or> cr = CHR '']''"
    by (auto simp: replacement_text_eq)
  moreover have "cr \<notin> set PAT" "cr \<noteq> CHR '']''"
    by (simp_all add: cr_def PAT_def KEY_def)
  moreover have "cr \<notin> set (dumps_body (sorted_list_of_set S))"
    using dumps_body_chars [of cr "sorted_list_of_set S"] by (auto simp: cr_def is_digit_def)
  ultimately show False by blast
qed

lemma commit_content_no_cr:
  "cr \<notin> set s \<Longrightarrow> cr \<notin> set (commit_content s D new_deleted)"
  using set_re_sub [of "replacement_text (D \<union> set new_deleted)" s] replacement_text_no_cr
  by (auto simp: commit_content_def)

lemma read_text_no_cr: "cr \<notin> set (read_text e p)"
  by (simp add: read_text_def universal_newlines_no_cr)

lemma universal_newlines_Cons: "c \<noteq> cr \<Longrightarrow> universal_newlines (c # s) = c # universal_newlines s"
  by (cases s) simp_all

text \<open>Text without a carriage return is read back as it was written, whatever the line separator.\<close>

lemma universal_newlines_write:
  "cr \<notin> set s \<Longrightarrow> universal_newlines (write_newlines crlf s) = s"
proof (cases crlf)
  case False
  assume "cr \<notin> set s"
  with False show ?thesis
    by (simp add: write_newlines_def universal_newlines_id)
next
  case True
  assume "cr \<notin> set s"
  then have "universal_newlines (concat (map (\<lambda>c. if c = nl then [cr, nl] else [c]) s)) = s"
    by (induction s) (auto simp: universal_newlines_Cons)
  with True show ?thesis
    by (simp add: write_newlines_def)
qed

lemma read_text_write_text:
  "cr \<notin> set s \<Longrightarrow> read_text (write_text e p s) p = s"
  by (simp add: read_text_def write_text_def universal_newlines_write)

lemma linesep_crlf_write_text [simp]: "linesep_crlf (write_text e p s) = linesep_crlf e"
  by (simp add: write_text_def)

section \<open>A run after a commit\<close>

lemma path_join_manifest:
  assumes "is_catalog_name name"
  shows "path_join tub name \<noteq> manifest_path tub"
proof -
  from assms have n: "\<not> prefix ''/'' name" "name \<noteq> ''manifest.json''"
    by (auto simp: is_catalog_name_def prefix_def)
  then show ?thesis
    by (auto simp: path_join_def manifest_path_def)
qed

lemma glob_not_manifest: "p \<in> set (glob_catalogs e tub) \<Longrightarrow> p \<noteq> manifest_path tub"
  by (auto simp: glob_catalogs_def path_join_manifest)

text \<open>The checks read the world only through the file names and the image decoders.\<close>

lemma get_image_path_file_bytes [simp]:
  "get_image_path (e\<lparr>file_bytes := f\<rparr>) tub name = get_image_path e tub name"
  by (simp add: get_image_path_def Let_def)

lemma is_valid_image_file_bytes [simp]:
  "is_valid_image (e\<lparr>file_bytes := f\<rparr>) p = is_valid_image e p"
  by (simp add: is_valid_image_def split: option.splits)

lemma check_brightness_file_bytes [simp]:
  "check_brightness (e\<lparr>file_bytes := f\<rparr>) p minb maxb = check_brightness e p minb maxb"
  by (simp add: check_brightness_def split: option.splits decoded.splits)

lemma inspect_image_file_bytes [simp]:
  "inspect_image (e\<lparr>file_bytes := f\<rparr>) tub maxb minb r = inspect_image e tub maxb minb r"
  by (simp add: inspect_image_def Let_def split: option.splits prod.splits bool.splits)

lemma frame_problems_file_bytes [simp]:
  "frame_problems (e\<lparr>file_bytes := f\<rparr>) tub D maxb minb recs = frame_problems e tub D maxb minb recs"
  by (simp add: frame_problems_def check_record_def cong: if_cong)

lemma flag_one_file_bytes [simp]:
  "flag_one (e\<lparr>file_bytes := f\<rparr>) tub recs D idx probs = flag_one e tub recs D idx probs"
  by (simp add: flag_one_def resolved_image_def Let_def cong: option.case_cong if_cong)

lemma flag_sequence_file_bytes [simp]:
  "flag_sequence (e\<lparr>file_bytes := f\<rparr>) tub recs D seq probs = flag_sequence e tub recs D seq probs"
  by (induction seq arbitrary: probs) (simp_all add: flag_sequence_step)

lemma avg_file_bytes [simp]: "avg (e\<lparr>file_bytes := f\<rparr>) xs = avg e xs"
  by (simp add: avg_def)

lemma process_sequence_file_bytes [simp]:
  "process_sequence (e\<lparr>file_bytes := f\<rparr>) tub recs D maxz seq probs
     = process_sequence e tub recs D maxz seq probs"
  by (simp add: process_sequence_def Let_def cong: if_cong)

lemma zero_pass_file_bytes [simp]:
  "zero_pass (e\<lparr>file_bytes := f\<rparr>) tub recs D maxz seqs probs = zero_pass e tub recs D maxz seqs probs"
  by (induction seqs arbitrary: probs) (simp_all cong: sum.case_cong)

lemma glob_catalogs_file_bytes [simp]:
  "glob_catalogs (e\<lparr>file_bytes := f\<rparr>) tub = glob_catalogs e tub"
  by (simp add: glob_catalogs_def)

lemma all_records_of_committed [simp]:
  "all_records_of (committed e tub D probs) tub = all_records_of e tub"
proof -
  have "catalog_records (committed e tub D probs) p = catalog_records e p"
    if "p \<in> set (glob_catalogs e tub)" for p
    using glob_not_manifest [OF that] by (simp add: catalog_records_def committed_def write_text_def read_text_def)
  then show ?thesis
    by (simp add: all_records_of_def committed_def write_text_def cong: map_cong)
qed

lemma found_problems_committed [simp]:
  "found_problems (committed e tub D probs) tub D' maxb minb maxz = found_problems e tub D' maxb minb maxz"
proof -
  have "all_records_of (committed e tub D probs) tub = all_records_of e tub"
    by simp
  then show ?thesis
    unfolding found_problems_def Let_def
    by (simp add: committed_def write_text_def)
qed

lemma store_ok_committed [simp]:
  "store_ok (committed e tub D probs) tub = store_ok e tub"
  by (simp add: store_ok_def committed_def write_text_def)

lemma read_text_committed [simp]:
  "read_text (committed e tub D probs) (manifest_path tub)
     = commit_content (read_text e (manifest_path tub)) D (map fst probs)"
proof -
  have "cr \<notin> set (commit_content (read_text e (manifest_path tub)) D (map fst probs))"
    using read_text_no_cr by (rule commit_content_no_cr)
  then show ?thesis
    unfolding committed_def by (rule read_text_write_text)
qed

text \<open>With the indices of the problems of one run deleted, the next run finds nothing.\<close>

lemma found_problems_after_commit:
  assumes "found_problems e tub D maxb minb maxz = Inr probs"
  shows "found_problems e tub (D \<union> set (map fst probs)) maxb minb maxz = Inr []"
proof -
  let ?D' = "D \<union> set (map fst probs)"
  let ?recs = "all_records_of e tub"
  from found_problems_total [of e tub D maxb minb maxz] assms obtain added where
    a: "probs = frame_problems e tub D maxb minb ?recs @ added"
      "\<forall>seq \<in> set (get_zero_angle_sequences ?recs). run_flagged e ?recs maxz seq \<longrightarrow>
         covered e tub ?recs D seq probs"
    by auto
  from found_problems_total [of e tub ?D' maxb minb maxz] obtain added' where
    b: "found_problems e tub ?D' maxb minb maxz = Inr (frame_problems e tub ?D' maxb minb ?recs @ added')"
      "\<forall>x \<in> set added'. \<exists>seq \<in> set (get_zero_angle_sequences ?recs).
         run_flagged e ?recs maxz seq \<and> zero_entry e tub ?recs ?D' seq x"
    by blast
  have "frame_problems e tub ?D' maxb minb ?recs = []"
  proof (rule ccontr)
    assume "frame_problems e tub ?D' maxb minb ?recs \<noteq> []"
    then obtain x where x: "x \<in> set (frame_problems e tub ?D' maxb minb ?recs)"
      by (cases "frame_problems e tub ?D' maxb minb ?recs") auto
    then obtain r where r: "r \<in> set ?recs" "r_index r \<notin> ?D'"
      "fst (inspect_image e tub maxb minb r) = Some x"
      by (auto simp: frame_problems_iff)
    then have "x \<in> set (frame_problems e tub D maxb minb ?recs)"
      by (auto simp: frame_problems_iff)
    with a(1) have "fst x \<in> ?D'" by auto
    moreover have "fst x = r_index r"
      using r(3) by (rule inspect_image_index)
    ultimately show False using r(2) by simp
  qed
  moreover have "added' = []"
  proof (rule ccontr)
    assume "added' \<noteq> []"
    then obtain x where "x \<in> set added'" by (cases added') auto
    with b(2) obtain seq pos where s: "seq \<in> set (get_zero_angle_sequences ?recs)"
      "run_flagged e ?recs maxz seq" "fst x \<notin> ?D'" "pos \<in> set seq" "fst x = r_index (?recs ! pos)"
      "resolved_image e tub (?recs ! pos) \<noteq> None"
      by (fastforce simp: zero_entry_def)
    from a(2) s(1,2) have "covered e tub ?recs D seq probs" by blast
    with s(3,4,5,6) have "fst x \<in> fst ` set probs"
      by (auto simp: covered_def)
    with s(3) show False by simp
  qed
  ultimately show ?thesis using b(1) by simp
qed

text \<open>
  Claim C7. Running the audit with \<open>remove\<close> set twice in succession leaves the world
  that the first run leaves: the second run writes nothing new, so the manifest, and with
  it the deletion index loaded from it, is the same after the second run as after the
  first. This holds for every store, whatever the text of its manifest.
\<close>

theorem audit_twice_idempotent:
  "after_run (after_run e tub True maxb minb maxz) tub True maxb minb maxz
     = after_run e tub True maxb minb maxz \<and>
   load_deleted_indexes
     (read_text (after_run (after_run e tub True maxb minb maxz) tub True maxb minb maxz)
        (manifest_path tub))
     = load_deleted_indexes (read_text (after_run e tub True maxb minb maxz) (manifest_path tub))"
proof -
  have twice: "after_run (after_run e tub True maxb minb maxz) tub True maxb minb maxz
     = after_run e tub True maxb minb maxz"
  proof (cases "store_ok e tub")
    case False
    with clean_tub_data_abort [of e tub True maxb minb maxz] have "after_run e tub True maxb minb maxz = e"
      by (auto simp: after_run_def)
    then show ?thesis by simp
  next
    case ok: True
    let ?c = "read_text e (manifest_path tub)"
    show ?thesis
    proof (cases "load_deleted_indexes ?c")
      case (Inl err)
      with ok have "after_run e tub True maxb minb maxz = e"
        by (simp add: after_run_def clean_tub_data_load_error)
      then show ?thesis by simp
    next
      case (Inr D)
      obtain probs where f: "found_problems e tub D maxb minb maxz = Inr probs"
        using found_problems_total [of e tub D maxb minb maxz] by blast
      show ?thesis
      proof (cases "probs = []")
        case True
        with clean_tub_data_clean [OF ok Inr, of maxb minb maxz True] f
        have "after_run e tub True maxb minb maxz = e"
          by (auto simp: after_run_def)
        then show ?thesis by simp
      next
        case False
        let ?e1 = "committed e tub D probs"
        let ?S = "D \<union> set (map fst probs)"
        let ?c1 = "re_sub (replacement_text ?S) ?c"
        from clean_tub_data_commit [OF ok Inr f False]
        have r1: "after_run e tub True maxb minb maxz = ?e1"
          by (auto simp: after_run_def)
        have ok1: "store_ok ?e1 tub" using ok by simp
        have c1: "read_text ?e1 (manifest_path tub) = ?c1"
          by (simp add: commit_content_def)
        have fin: "finite ?S"
          using load_finite [OF Inr] by simp
        have "after_run ?e1 tub True maxb minb maxz = ?e1"
        proof (cases "has_field ?c")
          case True
          then have l1: "load_deleted_indexes (read_text ?e1 (manifest_path tub)) = Inr ?S"
            using load_after_commit [OF _ fin] c1 by simp
          have "found_problems ?e1 tub ?S maxb minb maxz = Inr []"
            using found_problems_after_commit [OF f] by simp
          from clean_tub_data_clean [OF ok1 l1 this, of True] show ?thesis
            by (auto simp: after_run_def)
        next
          case nf: False
          then have d: "D = {}"
            using load_no_field [of ?c] Inr by simp
          from nf have "\<not> has_field ?c1"
            by (simp add: has_field_re_sub)
          then have l1: "load_deleted_indexes (read_text ?e1 (manifest_path tub)) = Inr D"
            using load_no_field [of ?c1] c1 d by simp
          have f1: "found_problems ?e1 tub D maxb minb maxz = Inr probs"
            using f by simp
          have "commit_content (read_text ?e1 (manifest_path tub)) D (map fst probs) = ?c1"
            unfolding c1 by (simp add: commit_content_def re_sub_replacement_idem)
          then have "committed ?e1 tub D probs = write_text ?e1 (manifest_path tub) ?c1"
            by (simp only: committed_def [of ?e1])
          also have "\<dots> = ?e1"
            by (simp add: committed_def [of e] write_text_def commit_content_def)
          finally have "committed ?e1 tub D probs = ?e1" .
          with clean_tub_data_commit [OF ok1 l1 f1 False] show ?thesis
            by (auto simp: after_run_def)
        qed
        with r1 show ?thesis by simp
      qed
    qed
  qed
  then show ?thesis by simp
qed

theorem audit_twice_idempotent_witness:
  "read_text (after_run (tub_world NoImage) ''tub'' True 250 20 10) (manifest_path ''tub'')
     = ''{'' @ PAT @ ''1, 2]}'' \<and>
   read_text (after_run (after_run (tub_world NoImage) ''tub'' True 250 20 10) ''tub'' True 250 20 10)
       (manifest_path ''tub'')
     = ''{'' @ PAT @ ''1, 2]}''"
proof -
  have "read_text (after_run (tub_world NoImage) ''tub'' True 250 20 10) (manifest_path ''tub'')
     = ''{'' @ PAT @ ''1, 2]}''"
    by code_simp
  with audit_twice_idempotent [of "tub_world NoImage" "''tub''" 250 20 10] show ?thesis
    by simp
qed

section \<open>A manifest with one field\<close>

lemma count_key_append_ge: "count_key s \<le> count_key (u @ s)"
  by (induction u) auto

lemma count_key_prefix: "prefix KEY s \<Longrightarrow> 1 \<le> count_key s"
  using PAT_props(9) by (cases s) auto

lemma count_key_zero: "count_key s = 0 \<Longrightarrow> re_search s = None"
proof (induction s)
  case Nil
  show ?case by (simp add: match_here_def PAT_props)
next
  case (Cons c cs)
  then have "\<not> prefix KEY (c # cs)" "count_key cs = 0"
    by (auto split: if_splits)
  with Cons.IH re_search_skip [of c cs] show ?case
    by (simp del: re_search.simps)
qed

lemma count_key_one_step:
  assumes "count_key (c # pre @ s) = 1" "prefix KEY s"
  shows "\<not> prefix KEY (c # pre @ s)" "count_key (pre @ s) = 1"
proof -
  have "1 \<le> count_key (pre @ s)"
    using count_key_prefix [OF assms(2)] count_key_append_ge [of s pre] by simp
  with assms(1) show "\<not> prefix KEY (c # pre @ s)" "count_key (pre @ s) = 1"
    by (auto split: if_splits)
qed

lemma field_line_unique:
  "count_key (pre @ s) = 1 \<Longrightarrow> prefix KEY s \<Longrightarrow>
   field_line (pre @ s) = Some (takeWhile (\<lambda>x. x \<noteq> nl) s)"
proof (induction pre)
  case Nil
  then show ?case using PAT_props(9) by (cases s) auto
next
  case (Cons c pre)
  from count_key_one_step [of c pre s] Cons.prems Cons.IH show ?case by simp
qed

lemma re_sub_unique:
  "count_key (pre @ s) = 1 \<Longrightarrow> prefix KEY s \<Longrightarrow> re_sub R (pre @ s) = pre @ re_sub R s"
proof (induction pre)
  case Nil
  show ?case by simp
next
  case (Cons c pre)
  from count_key_one_step [of c pre s] Cons.prems
  have n: "\<not> prefix KEY (c # pre @ s)" and o: "count_key (pre @ s) = 1" by simp_all
  from n have "match_here (c # pre @ s) = None"
    using match_here_prefix [of "c # pre @ s"] by (cases "match_here (c # pre @ s)") auto
  then have "re_sub R (c # pre @ s) = c # re_sub R (pre @ s)"
    by (rule re_sub_skip)
  with Cons.IH [OF o Cons.prems(2)] show ?case by simp
qed

lemma count_key_unique_rest:
  assumes "count_key (pre @ PAT @ body @ '']'' @ post) = 1"
  shows "count_key post = 0"
proof -
  let ?s = "PAT @ body @ '']'' @ post"
  have k: "prefix KEY ?s"
    using PAT_props(4) by (simp add: prefix_def) (metis append.assoc)
  have "count_key ?s \<le> 1"
    using count_key_append_ge [of ?s pre] assms by simp
  moreover have "1 \<le> count_key ?s"
    using k by (rule count_key_prefix)
  ultimately have one: "count_key ?s = 1" by simp
  obtain c cs where p: "PAT = c # cs"
    using PAT_props(5) by (cases PAT) auto
  then have "?s = c # (cs @ body @ '']'' @ post)"
    by simp
  with one k have "count_key (c # (cs @ body @ '']'' @ post)) = 1"
    "prefix KEY (c # (cs @ body @ '']'' @ post))"
    by (simp_all only:)
  then have "count_key (cs @ body @ '']'' @ post) = 0"
    by simp
  moreover have "count_key post \<le> count_key ((cs @ body @ '']'') @ post)"
    by (rule count_key_append_ge)
  ultimately show ?thesis by simp
qed

lemma single_field:
  assumes "manifest = pre @ PAT @ body @ '']'' @ post" "count_key manifest = 1"
    "nl \<notin> set body" "CHR '']'' \<notin> set body"
  shows "field_line manifest = Some (PAT @ body @ '']'' @ takeWhile (\<lambda>x. x \<noteq> nl) post)"
    "re_search (PAT @ body @ '']'' @ takeWhile (\<lambda>x. x \<noteq> nl) post) = Some body"
    "re_sub R manifest = pre @ R @ post"
proof -
  let ?s = "PAT @ body @ '']'' @ post"
  have k: "prefix KEY ?s"
    using PAT_props(4) by (simp add: prefix_def) (metis append.assoc)
  have c: "count_key (pre @ ?s) = 1"
    using assms(1,2) by simp
  have "\<forall>x \<in> set (PAT @ body @ '']''). x \<noteq> nl"
    using assms(3) PAT_props(2) by (auto simp: nl_def)
  then have "takeWhile (\<lambda>x. x \<noteq> nl) ((PAT @ body @ '']'') @ post)
      = (PAT @ body @ '']'') @ takeWhile (\<lambda>x. x \<noteq> nl) post"
    by (intro takeWhile_append2) auto
  then show "field_line manifest = Some (PAT @ body @ '']'' @ takeWhile (\<lambda>x. x \<noteq> nl) post)"
    using field_line_unique [OF c k] assms(1) by simp
  have "match_here (PAT @ body @ CHR '']'' # takeWhile (\<lambda>x. x \<noteq> nl) post)
      = Some (body, takeWhile (\<lambda>x. x \<noteq> nl) post)"
    using assms(3,4) by (rule match_here_match)
  then show "re_search (PAT @ body @ '']'' @ takeWhile (\<lambda>x. x \<noteq> nl) post) = Some body"
    using re_search_match by simp
  have "match_here (PAT @ body @ CHR '']'' # post) = Some (body, post)"
    using assms(3,4) by (rule match_here_match)
  then have "re_sub R ?s = R @ re_sub R post"
    using re_sub_match by simp
  moreover have "re_sub R post = post"
    using count_key_unique_rest [OF c] count_key_zero re_search_None by blast
  ultimately show "re_sub R manifest = pre @ R @ post"
    using re_sub_unique [OF c k, of R] assms(1) by simp
qed

text \<open>
  Claim C2 as stated fails, in both of its parts. In a manifest written without the
  space after the colon the line with the key is found but the pattern does not match:
  the loaded index is empty, the commit leaves the bytes as they are, and the index
  loaded afterwards is still empty although index 5 was to be added. And a manifest
  whose line ends with a carriage return and a newline is read in text mode and written
  back with a newline alone: bytes after the field have changed. So they have when a
  line that ends with a newline is written back on a platform whose line separator is a
  carriage return and a newline.
\<close>

theorem compact_manifest_counterexample:
  "sublist KEY compact_manifest \<and>
   load_deleted_indexes (read_text (manifest_store compact_manifest) (manifest_path ''tub'')) = Inr {} \<and>
   file_bytes (committed (manifest_store compact_manifest) ''tub'' {} [missing 5]) (manifest_path ''tub'')
     = compact_manifest \<and>
   load_deleted_indexes
     (read_text (committed (manifest_store compact_manifest) ''tub'' {} [missing 5]) (manifest_path ''tub''))
     \<noteq> Inr ({} \<union> set (map fst [missing 5])) \<and>
   load_deleted_indexes (read_text (manifest_store crlf_manifest) (manifest_path ''tub'')) = Inr {1} \<and>
   file_bytes (manifest_store crlf_manifest) (manifest_path ''tub'') = ''{'' @ PAT @ ''1]}'' @ [cr, nl] \<and>
   file_bytes (committed (manifest_store crlf_manifest) ''tub'' {1} [missing 5]) (manifest_path ''tub'')
     = ''{'' @ PAT @ ''1, 5]}'' @ [nl] \<and>
   file_bytes (crlf_platform (manifest_store lf_manifest)) (manifest_path ''tub'')
     = ''{'' @ PAT @ ''1]}'' @ [nl] \<and>
   file_bytes (committed (crlf_platform (manifest_store lf_manifest)) ''tub'' {1} [missing 5])
       (manifest_path ''tub'')
     = ''{'' @ PAT @ ''1, 5]}'' @ [cr, nl]"
  by code_simp

text \<open>
  Claim C2, amended. Take a store on a platform whose line separator is the newline, and
  whose manifest consists of ASCII bytes, none of them a carriage return, in which the key \<open>"deleted_indexes":\<close> occurs exactly once, followed by a
  space, an opening bracket, a body without a newline or a closing bracket that reads as
  a list of integers \<open>D\<close> (or is blank), and a closing bracket. Then load yields \<open>D\<close>; the
  bytes of the manifest after a commit of newly flagged indices are the old bytes with
  the body replaced by the sorted union of \<open>D\<close> and the new indices, every byte before the
  opening bracket and after the closing bracket unchanged; and load on the store after
  the commit yields that union.
\<close>

theorem commit_then_load:
  assumes "file_bytes e (manifest_path tub) = pre @ PAT @ body @ '']'' @ post"
    "count_key (file_bytes e (manifest_path tub)) = 1"
    "plain_ascii (file_bytes e (manifest_path tub))" "\<not> linesep_crlf e"
    "nl \<notin> set body" "CHR '']'' \<notin> set body" "parse_body body = Inr D"
  shows "load_deleted_indexes (read_text e (manifest_path tub)) = Inr D \<and>
    file_bytes (committed e tub D probs) (manifest_path tub) =
      pre @ PAT @ dumps_body (sorted_list_of_set (D \<union> set (map fst probs))) @ '']'' @ post \<and>
    load_deleted_indexes (read_text (committed e tub D probs) (manifest_path tub))
      = Inr (D \<union> set (map fst probs))"
proof (intro conjI)
  let ?bytes = "file_bytes e (manifest_path tub)"
  from assms(3) have "cr \<notin> set ?bytes"
    by (auto simp: plain_ascii_def)
  then have t: "read_text e (manifest_path tub) = ?bytes"
    by (simp add: read_text_def universal_newlines_id)
  note f = single_field [OF assms(1,2,5,6)]
  show l: "load_deleted_indexes (read_text e (manifest_path tub)) = Inr D"
    using f(1,2) assms(7) by (simp add: t load_field_line parse_field_body)
  show "file_bytes (committed e tub D probs) (manifest_path tub) =
      pre @ PAT @ dumps_body (sorted_list_of_set (D \<union> set (map fst probs))) @ '']'' @ post"
    using f(3) assms(4)
    by (simp add: committed_def write_text_def write_newlines_def t commit_content_def replacement_text_eq)
  have "has_field ?bytes"
    using f(1,2) by (simp add: has_field_def)
  moreover have "finite (D \<union> set (map fst probs))"
    using parse_body_finite [OF assms(7)] by simp
  ultimately have "load_deleted_indexes (commit_content ?bytes D (map fst probs))
      = Inr (D \<union> set (map fst probs))"
    unfolding commit_content_def by (rule load_after_commit)
  then show "load_deleted_indexes (read_text (committed e tub D probs) (manifest_path tub))
      = Inr (D \<union> set (map fst probs))"
    by (simp add: t)
qed

lemma spaced_manifest_shape:
  "file_bytes (manifest_store spaced_manifest) (manifest_path ''tub'') =
     (''{'' @ [CHR 0x22] @ ''paths'' @ [CHR 0x22] @ '': [], '') @ PAT @ ''3, 1'' @ '']''
     @ ('' , '' @ [CHR 0x22] @ ''max_len'' @ [CHR 0x22] @ '': 1000}'' @ [nl] @ ''x'')"
  "count_key (file_bytes (manifest_store spaced_manifest) (manifest_path ''tub'')) = 1"
  "plain_ascii (file_bytes (manifest_store spaced_manifest) (manifest_path ''tub''))"
  "\<not> linesep_crlf (manifest_store spaced_manifest)"
  "nl \<notin> set ''3, 1''" "CHR '']'' \<notin> set ''3, 1''"
  "parse_body ''3, 1'' = Inr {1, 3}"
  by code_simp+

theorem commit_then_load_witness:
  "load_deleted_indexes (read_text (manifest_store spaced_manifest) (manifest_path ''tub'')) = Inr {1, 3} \<and>
   file_bytes (committed (manifest_store spaced_manifest) ''tub'' {1, 3} [missing 7, missing 1])
       (manifest_path ''tub'') =
     (''{'' @ [CHR 0x22] @ ''paths'' @ [CHR 0x22] @ '': [], '') @ PAT @ ''1, 3, 7'' @ '']''
       @ ('' , '' @ [CHR 0x22] @ ''max_len'' @ [CHR 0x22] @ '': 1000}'' @ [nl] @ ''x'') \<and>
   load_deleted_indexes
     (read_text (committed (manifest_store spaced_manifest) ''tub'' {1, 3} [missing 7, missing 1])
        (manifest_path ''tub''))
     = Inr {1, 3, 7}"
proof -
  have d: "dumps_body (sorted_list_of_set ({1, 3} \<union> set (map fst [missing 7, missing 1]))) = ''1, 3, 7''"
    by code_simp
  have u: "{1, 3} \<union> set (map fst [missing 7, missing 1]) = {1, 3, 7::int}"
    by (auto simp: missing_def)
  from commit_then_load [OF spaced_manifest_shape, of "[missing 7, missing 1]"] show ?thesis
    unfolding d unfolding u .
qed

end
